theory Spec2Isabelle
  imports Complex_Main
begin

section \<open>Python values, errors and numeric conversions\<close>

text \<open>
  The renderer is Python.  Unbounded integers are \<^typ>\<open>int\<close>.  A Python \<open>float\<close> is
  modelled by the \<^typ>\<open>real\<close> number it denotes: binary rounding error, infinities and
  NaN are outside the model.  Every exception the modelled code can raise is a value of
  \<open>error\<close>, and a function that can raise returns \<open>error + 'a\<close> with \<open>Inl\<close> for the
  exception.
\<close>

datatype error = ValueError | IndexError | ZeroDivisionError

definition bind_result :: "error + 'a \<Rightarrow> ('a \<Rightarrow> error + 'b) \<Rightarrow> error + 'b" where
  "bind_result r f = (case r of Inl e \<Rightarrow> Inl e | Inr v \<Rightarrow> f v)"

text \<open>\<open>round(x)\<close> of Python 3 rounds a half to the even neighbour.\<close>

definition py_round :: "real \<Rightarrow> int" where
  "py_round x =
     (let f = \<lfloor>x\<rfloor>; d = x - of_int f
      in if d < 1 / 2 then f else if 1 / 2 < d then f + 1 else if even f then f else f + 1)"

text \<open>\<open>int(x)\<close> on a float truncates toward zero.\<close>

definition py_int :: "real \<Rightarrow> int" where
  "py_int x = (if x < 0 then \<lceil>x\<rceil> else \<lfloor>x\<rfloor>)"

text \<open>\<open>a / b\<close> on floats raises on a zero divisor; \<open>a % b\<close> on integers likewise.\<close>

definition py_truediv :: "real \<Rightarrow> real \<Rightarrow> error + real" where
  "py_truediv a b = (if b = 0 then Inl ZeroDivisionError else Inr (a / b))"

definition py_mod :: "int \<Rightarrow> int \<Rightarrow> error + int" where
  "py_mod a b = (if b = 0 then Inl ZeroDivisionError else Inr (a mod b))"

text \<open>\<open>xs[i]\<close>: a negative index counts from the end, an index out of range raises.\<close>

definition list_index :: "'a list \<Rightarrow> int \<Rightarrow> error + 'a" where
  "list_index xs i =
     (if 0 \<le> i \<and> i < int (length xs) then Inr (xs ! nat i)
      else if - int (length xs) \<le> i \<and> i < 0 then Inr (xs ! nat (int (length xs) + i))
      else Inl IndexError)"

section \<open>Strings\<close>

text \<open>
  Strings are lists of 8-bit characters.  \<open>str.lower\<close> and the whitespace test of
  \<open>str.strip\<close> and \<open>str.split\<close> are modelled on ASCII; characters beyond ASCII are
  left alone and are never whitespace.
\<close>

definition lower_char :: "char \<Rightarrow> char" where
  "lower_char c =
     (let n = (of_char c :: nat) in if 65 \<le> n \<and> n \<le> 90 then char_of (n + 32) else c)"

definition lower :: "string \<Rightarrow> string" where
  "lower s = map lower_char s"

definition is_space :: "char \<Rightarrow> bool" where
  "is_space c = (let n = (of_char c :: nat) in (9 \<le> n \<and> n \<le> 13) \<or> (28 \<le> n \<and> n \<le> 32))"

definition strip :: "string \<Rightarrow> string" where
  "strip s = rev (dropWhile is_space (rev (dropWhile is_space s)))"

section \<open>Colours\<close>

type_synonym rgba = "int \<times> int \<times> int \<times> int"

definition FALLBACK_LANGUAGE_COLORS :: "string list" where
  "FALLBACK_LANGUAGE_COLORS =
     [''#e06c75'', ''#98c379'', ''#e5c07b'', ''#61afef'', ''#c678dd'',
      ''#56b6c2'', ''#be5046'', ''#d19a66'', ''#abb2bf'', ''#5c6370'']"

text \<open>
  The loop \<open>for lang, color in GITHUB_LANGUAGE_COLORS.items()\<close> of
  \<open>get_language_color\<close>: the first item, in the dictionary's order, whose lowered key is
  the lowered language.
\<close>

fun find_case_insensitive :: "(string \<times> string) list \<Rightarrow> string \<Rightarrow> string option" where
  "find_case_insensitive [] language_lower = None"
| "find_case_insensitive ((lang, color) # items) language_lower =
     (if lower lang = language_lower then Some color
      else find_case_insensitive items language_lower)"

text \<open>
  \<open>get_language_color\<close>.  The table \<open>GITHUB_LANGUAGE_COLORS\<close> is imported from a module
  that is not part of the sources at hand, so it is a parameter: the dictionary's items
  in order, as an association list.
\<close>

definition get_language_color :: "(string \<times> string) list \<Rightarrow> string \<Rightarrow> int \<Rightarrow> error + string" where
  "get_language_color GITHUB_LANGUAGE_COLORS language fallback_index =
     (case map_of GITHUB_LANGUAGE_COLORS language of
        Some color \<Rightarrow> Inr color
      | None \<Rightarrow>
          (case find_case_insensitive GITHUB_LANGUAGE_COLORS (lower language) of
             Some color \<Rightarrow> Inr color
           | None \<Rightarrow>
               bind_result (py_mod fallback_index (int (length FALLBACK_LANGUAGE_COLORS)))
                 (list_index FALLBACK_LANGUAGE_COLORS)))"

definition hex_digit :: "char \<Rightarrow> int option" where
  "hex_digit c =
     (let n = (of_char c :: nat)
      in if 48 \<le> n \<and> n \<le> 57 then Some (int n - 48)
         else if 97 \<le> n \<and> n \<le> 102 then Some (int n - 87)
         else if 65 \<le> n \<and> n \<le> 70 then Some (int n - 55)
         else None)"

text \<open>
  \<open>int(s, 16)\<close>: blanks around, an optional sign, then hexadecimal digits.  The prefix
  \<open>0x\<close> and the underscores that Python also accepts need three characters or more;
  \<open>hex_to_rgb\<close> only passes slices of at most two.
\<close>

definition int16 :: "string \<Rightarrow> error + int" where
  "int16 s =
     (let t = strip s;
          sign_digits =
            (case t of
               [] \<Rightarrow> (1, [])
             | c # r \<Rightarrow>
                 if c = CHR ''+'' then (1, r) else if c = CHR ''-'' then (- 1, r) else (1, t))
      in case sign_digits of
           (sg, ds) \<Rightarrow>
             if ds \<noteq> [] \<and> list_all (\<lambda>c. hex_digit c \<noteq> None) ds
             then Inr (sg * foldl (\<lambda>a c. 16 * a + the (hex_digit c)) 0 ds)
             else Inl ValueError)"

definition hex_to_rgb :: "string \<Rightarrow> error + (int \<times> int \<times> int)" where
  "hex_to_rgb hex_color =
     (let h = dropWhile (\<lambda>c. c = CHR ''#'') hex_color
      in bind_result (int16 (take 2 h)) (\<lambda>r.
         bind_result (int16 (take 2 (drop 2 h))) (\<lambda>g.
         bind_result (int16 (take 2 (drop 4 h))) (\<lambda>b. Inr (r, g, b)))))"

definition hex_to_rgba :: "string \<Rightarrow> int \<Rightarrow> error + rgba" where
  "hex_to_rgba hex_color alpha =
     bind_result (hex_to_rgb hex_color) (\<lambda>(r, g, b). Inr (r, g, b, alpha))"

text \<open>A colour string of the form \<open>#rrggbb\<close>.\<close>

definition is_hex_color :: "string \<Rightarrow> bool" where
  "is_hex_color s =
     (case s of
        [] \<Rightarrow> False
      | c # ds \<Rightarrow> c = CHR ''#'' \<and> length ds = 6 \<and> list_all (\<lambda>d. hex_digit d \<noteq> None) ds)"

section \<open>Coordinate scaler\<close>




text \<open>\<open>_s\<close>, as a function of the scale it reads from \<open>self\<close>.\<close>

definition s :: "real \<Rightarrow> real \<Rightarrow> int" where
  "s sc v = py_round (v * sc)"



section \<open>Language bar\<close>

text \<open>
  What the language part of the stats panel draws, in drawing order.  Positions and the
  measurements of the text are left out; a drawing operation records which element is
  drawn and in which colour.
\<close>

datatype draw_op =
    Label
  | Background
  | Row int rgba
  | Block int int rgba
  | Paste
  | Border
  | Legend string real rgba

type_synonym segment = "int \<times> int \<times> rgba"

definition seg_start :: "segment \<Rightarrow> int" where "seg_start sg = fst sg"
definition seg_end :: "segment \<Rightarrow> int" where "seg_end sg = fst (snd sg)"
definition seg_color :: "segment \<Rightarrow> rgba" where "seg_color sg = snd (snd sg)"
definition seg_height :: "segment \<Rightarrow> int" where "seg_height sg = seg_end sg - seg_start sg"

definition py_floordiv :: "int \<Rightarrow> int \<Rightarrow> error + int" where
  "py_floordiv a b = (if b = 0 then Inl ZeroDivisionError else Inr (a div b))"

fun map_result :: "('a \<Rightarrow> error + 'b) \<Rightarrow> 'a list \<Rightarrow> error + 'b list" where
  "map_result f [] = Inr []"
| "map_result f (x # xs) =
     bind_result (f x) (\<lambda>y. bind_result (map_result f xs) (\<lambda>ys. Inr (y # ys)))"

text \<open>
  \<open>_normalize_language_name\<close> and \<open>_filter_languages\<close>; \<open>casefold\<close> is \<open>lower\<close> on ASCII.
\<close>

definition normalize_language_name :: "string \<Rightarrow> string" where
  "normalize_language_name name = lower (strip name)"

definition filter_languages :: "(string \<times> real) list \<Rightarrow> string list \<Rightarrow> (string \<times> real) list" where
  "filter_languages languages excluded =
     (let excluded_set = set (map normalize_language_name (filter (\<lambda>x. x \<noteq> []) excluded))
      in if excluded_set = {} then languages
         else filter (\<lambda>(lang, pct). normalize_language_name lang \<notin> excluded_set) languages)"

text \<open>
  The colour of the entry \<open>lang\<close> at position \<open>i\<close> of the visible languages:
  \<open>hex_to_rgba(get_language_color(lang, i))\<close>, as both the bar and the legend compute it.
\<close>

definition entry_color :: "(string \<times> string) list \<Rightarrow> string \<Rightarrow> int \<Rightarrow> error + rgba" where
  "entry_color tbl lang i =
     bind_result (get_language_color tbl lang i) (\<lambda>hex. hex_to_rgba hex 255)"

text \<open>
  The height of the segment of entry \<open>i\<close>, as the body of the loop over
  \<open>enumerate(visible_languages)\<close> computes it before the test \<open>segment_height < 1\<close>.
\<close>

definition segment_height :: "bool \<Rightarrow> real \<Rightarrow> int \<Rightarrow> int \<Rightarrow> int \<Rightarrow> int \<Rightarrow> real \<Rightarrow> error + int" where
  "segment_height scale_bars total_pct h num_languages i current_y percentage =
     (if scale_bars
      then bind_result (py_truediv percentage total_pct) (\<lambda>q. Inr (py_int (q * real_of_int h)))
      else bind_result (py_floordiv h num_languages)
             (\<lambda>d. Inr (if i = num_languages - 1 then h - current_y else d)))"

text \<open>
  The loop that fills \<open>segments\<close>: the arguments \<open>i\<close> and \<open>current_y\<close> are the loop's
  counter and variable, the list is what remains of \<open>visible_languages\<close>, the result is
  what the remaining iterations append.
\<close>

fun segment_loop ::
  "(string \<times> string) list \<Rightarrow> bool \<Rightarrow> real \<Rightarrow> int \<Rightarrow> int \<Rightarrow> int \<Rightarrow> int \<Rightarrow> (string \<times> real) list
     \<Rightarrow> error + segment list" where
  "segment_loop tbl scale_bars total_pct h num_languages i current_y [] = Inr []"
| "segment_loop tbl scale_bars total_pct h num_languages i current_y ((lang, percentage) # rest) =
     bind_result (segment_height scale_bars total_pct h num_languages i current_y percentage)
       (\<lambda>height.
          if height < 1
          then segment_loop tbl scale_bars total_pct h num_languages (i + 1) current_y rest
          else
            bind_result (entry_color tbl lang i) (\<lambda>color.
            bind_result
              (segment_loop tbl scale_bars total_pct h num_languages (i + 1) (current_y + height) rest)
              (\<lambda>segments. Inr ((current_y, current_y + height, color) # segments))))"

text \<open>\<open>_blend_colors\<close>.\<close>

definition blend_channel :: "int \<Rightarrow> int \<Rightarrow> real \<Rightarrow> int" where
  "blend_channel a b factor = py_int (real_of_int a + real_of_int (b - a) * factor)"

definition blend_colors :: "rgba \<Rightarrow> rgba \<Rightarrow> real \<Rightarrow> rgba" where
  "blend_colors color1 color2 factor =
     (let f = max 0 (min 1 factor)
      in case (color1, color2) of
           ((r1, g1, b1, a1), (r2, g2, b2, a2)) \<Rightarrow>
             (blend_channel r1 r2 f, blend_channel g1 g2 f, blend_channel b1 b2 f,
              blend_channel a1 a2 f))"

text \<open>
  The colour of a row that lies in the segment \<open>sg\<close> of index \<open>seg_idx\<close>: the body of
  the inner loop over \<open>enumerate(segments)\<close> under its test
  \<open>seg_start <= row_y < seg_end\<close>.  The test "from the previous segment" comes first.
\<close>

definition color_in_segment :: "segment list \<Rightarrow> int \<Rightarrow> int \<Rightarrow> nat \<Rightarrow> segment \<Rightarrow> error + rgba" where
  "color_in_segment segments gradient_size row_y seg_idx sg =
     (if seg_idx > 0 \<and> row_y - seg_start sg < gradient_size
      then
        bind_result (py_truediv (real_of_int (row_y - seg_start sg)) (real_of_int gradient_size))
          (\<lambda>blend_factor.
             Inr (blend_colors (seg_color (segments ! (seg_idx - 1))) (seg_color sg) blend_factor))
      else if seg_idx < length segments - 1 \<and>
              seg_start (segments ! (seg_idx + 1)) - row_y \<le> gradient_size
      then
        bind_result
          (py_truediv (real_of_int (seg_start (segments ! (seg_idx + 1)) - row_y))
             (real_of_int gradient_size))
          (\<lambda>q. Inr (blend_colors (seg_color sg) (seg_color (segments ! (seg_idx + 1))) (1 - q)))
      else Inr (seg_color sg))"

text \<open>
  The inner loop, which stops at the first segment that holds the row.  The last
  argument is what remains of \<open>segments\<close> from index \<open>seg_idx\<close> on; the result is
  \<open>None\<close> when the loop ends with \<open>row_color\<close> still \<open>None\<close>.
\<close>

fun scan_segments :: "segment list \<Rightarrow> int \<Rightarrow> int \<Rightarrow> nat \<Rightarrow> segment list \<Rightarrow> error + rgba option" where
  "scan_segments segments gradient_size row_y seg_idx [] = Inr None"
| "scan_segments segments gradient_size row_y seg_idx (sg # rest) =
     (if seg_start sg \<le> row_y \<and> row_y < seg_end sg
      then bind_result (color_in_segment segments gradient_size row_y seg_idx sg)
             (\<lambda>c. Inr (Some c))
      else scan_segments segments gradient_size row_y (Suc seg_idx) rest)"

definition row_color :: "rgba \<Rightarrow> segment list \<Rightarrow> int \<Rightarrow> int \<Rightarrow> error + rgba" where
  "row_color secondary_color segments gradient_size row_y =
     bind_result (scan_segments segments gradient_size row_y 0 segments)
       (\<lambda>found.
          case found of
            Some c \<Rightarrow> Inr c
          | None \<Rightarrow> Inr (if segments \<noteq> [] then seg_color (last segments) else secondary_color))"

text \<open>
  The same row colour with the two tests in the other order, "to the next segment" before
  "from the previous segment": not in the code, defined to compare the code's order with
  it.
\<close>

definition color_in_segment_next_first ::
  "segment list \<Rightarrow> int \<Rightarrow> int \<Rightarrow> nat \<Rightarrow> segment \<Rightarrow> error + rgba" where
  "color_in_segment_next_first segments gradient_size row_y seg_idx sg =
     (if seg_idx < length segments - 1 \<and>
         seg_start (segments ! (seg_idx + 1)) - row_y \<le> gradient_size
      then
        bind_result
          (py_truediv (real_of_int (seg_start (segments ! (seg_idx + 1)) - row_y))
             (real_of_int gradient_size))
          (\<lambda>q. Inr (blend_colors (seg_color sg) (seg_color (segments ! (seg_idx + 1))) (1 - q)))
      else if seg_idx > 0 \<and> row_y - seg_start sg < gradient_size
      then
        bind_result (py_truediv (real_of_int (row_y - seg_start sg)) (real_of_int gradient_size))
          (\<lambda>blend_factor.
             Inr (blend_colors (seg_color (segments ! (seg_idx - 1))) (seg_color sg) blend_factor))
      else Inr (seg_color sg))"

fun scan_segments_next_first ::
  "segment list \<Rightarrow> int \<Rightarrow> int \<Rightarrow> nat \<Rightarrow> segment list \<Rightarrow> error + rgba option" where
  "scan_segments_next_first segments gradient_size row_y seg_idx [] = Inr None"
| "scan_segments_next_first segments gradient_size row_y seg_idx (sg # rest) =
     (if seg_start sg \<le> row_y \<and> row_y < seg_end sg
      then bind_result (color_in_segment_next_first segments gradient_size row_y seg_idx sg)
             (\<lambda>c. Inr (Some c))
      else scan_segments_next_first segments gradient_size row_y (Suc seg_idx) rest)"

definition row_color_next_first :: "rgba \<Rightarrow> segment list \<Rightarrow> int \<Rightarrow> int \<Rightarrow> error + rgba" where
  "row_color_next_first secondary_color segments gradient_size row_y =
     bind_result (scan_segments_next_first segments gradient_size row_y 0 segments)
       (\<lambda>found.
          case found of
            Some c \<Rightarrow> Inr c
          | None \<Rightarrow> Inr (if segments \<noteq> [] then seg_color (last segments) else secondary_color))"

text \<open>
  \<open>_draw_vertical_language_bar\<close>, for a renderer of scale \<open>sc\<close> and theme colour
  \<open>secondary_color\<close>, with bar height \<open>h\<close>.
\<close>

definition draw_vertical_language_bar ::
  "real \<Rightarrow> rgba \<Rightarrow> (string \<times> string) list \<Rightarrow> int \<Rightarrow> (string \<times> real) list \<Rightarrow> bool \<Rightarrow> bool \<Rightarrow> bool
     \<Rightarrow> error + draw_op list" where
  "draw_vertical_language_bar sc secondary_color tbl h languages scale_bars use_gradient show_border =
     (let visible_languages = take 5 languages
      in if visible_languages = [] then Inr [Background]
         else
           let total_pct = sum_list (map snd visible_languages)
           in if total_pct = 0 then Inr [Background]
              else
                bind_result
                  (segment_loop tbl scale_bars total_pct h (int (length visible_languages)) 0 0
                     visible_languages)
                  (\<lambda>segments.
                     if segments = [] then Inr [Background]
                     else
                       bind_result
                         (if use_gradient
                          then map_result
                                 (\<lambda>row_y.
                                    bind_result (row_color secondary_color segments (s sc 8) row_y)
                                      (\<lambda>c. Inr (Row row_y c)))
                                 (map int [0..<nat h])
                          else Inr (map (\<lambda>sg. Block (seg_start sg) (seg_end sg) (seg_color sg))
                                      segments))
                         (\<lambda>fill.
                            Inr ([Background] @ fill @ [Paste] @
                                 (if show_border then [Border] else [])))))"

text \<open>\<open>_draw_vertical_language_legend\<close>: one entry for each visible language.\<close>

fun legend_loop :: "(string \<times> string) list \<Rightarrow> int \<Rightarrow> (string \<times> real) list \<Rightarrow> error + draw_op list" where
  "legend_loop tbl i [] = Inr []"
| "legend_loop tbl i ((lang, percentage) # rest) =
     bind_result (entry_color tbl lang i) (\<lambda>color.
     bind_result (legend_loop tbl (i + 1) rest) (\<lambda>entries.
       Inr (Legend lang percentage color # entries)))"

definition draw_vertical_language_legend ::
  "(string \<times> string) list \<Rightarrow> (string \<times> real) list \<Rightarrow> error + draw_op list" where
  "draw_vertical_language_legend tbl languages = legend_loop tbl 0 (take 5 languages)"

text \<open>
  The language part of \<open>_draw_stats_section\<close>: from the read of \<open>stats["languages"]\<close> to
  the legend.  The three directives are read from \<open>stats\<close> by the caller.
\<close>

definition draw_stats_section_languages ::
  "real \<Rightarrow> rgba \<Rightarrow> (string \<times> string) list \<Rightarrow> (string \<times> real) list \<Rightarrow> string list \<Rightarrow> bool \<Rightarrow> bool \<Rightarrow> bool
     \<Rightarrow> error + draw_op list" where
  "draw_stats_section_languages sc secondary_color tbl languages0 excluded_languages
       scale_bars use_gradient show_border =
     (let bar_h = s sc 164;
          languages =
            (if excluded_languages \<noteq> [] then filter_languages languages0 excluded_languages
             else languages0)
      in if languages \<noteq> []
         then
           bind_result
             (draw_vertical_language_bar sc secondary_color tbl bar_h languages scale_bars
                use_gradient show_border)
             (\<lambda>bar.
                bind_result (draw_vertical_language_legend tbl languages)
                  (\<lambda>legend. Inr ([Label] @ bar @ legend)))
         else Inr [])"

text \<open>Every colour of the table converts to a pixel value.\<close>

definition colors_decode :: "(string \<times> string) list \<Rightarrow> bool" where
  "colors_decode tbl = list_all (\<lambda>kv. isl (hex_to_rgba (snd kv) 255) = False) tbl"

text \<open>
  Segments that lie one after the other from row \<open>y\<close> on, each at least one row high.
\<close>

fun contiguous_from :: "int \<Rightarrow> segment list \<Rightarrow> bool" where
  "contiguous_from y [] = True"
| "contiguous_from y (sg # rest) =
     (seg_start sg = y \<and> seg_start sg < seg_end sg \<and> contiguous_from (seg_end sg) rest)"

text \<open>
  The colours as the specification words them, to compare with the code: an entry with
  no exact and no case-insensitive match in the table takes the fallback colour at its
  rank among the entries that needed the fallback.  Not in the code.
\<close>

definition needs_fallback :: "(string \<times> string) list \<Rightarrow> string \<Rightarrow> bool" where
  "needs_fallback tbl lang =
     (map_of tbl lang = None \<and> find_case_insensitive tbl (lower lang) = None)"

fun spec_entry_colors :: "(string \<times> string) list \<Rightarrow> int \<Rightarrow> (string \<times> real) list \<Rightarrow> (error + rgba) list" where
  "spec_entry_colors tbl rank [] = []"
| "spec_entry_colors tbl rank ((lang, percentage) # rest) =
     (if needs_fallback tbl lang
      then entry_color tbl lang rank # spec_entry_colors tbl (rank + 1) rest
      else entry_color tbl lang rank # spec_entry_colors tbl rank rest)"

section \<open>Text layout\<close>

text \<open>
  The measurement \<open>draw.textbbox((0, 0), text, font=font)\<close> belongs to the imaging
  library.  It is a parameter of the model: \<open>bbox\<close> maps a text to the box
  \<open>(x0, y0, x1, y1)\<close> that the library returns for the font at hand, with
  integer coordinates.
\<close>

type_synonym bbox = "int \<times> int \<times> int \<times> int"

definition text_width :: "(string \<Rightarrow> bbox) \<Rightarrow> string \<Rightarrow> int" where
  "text_width bbox t = (case bbox t of (x0, y0, x1, y1) \<Rightarrow> x1 - x0)"

definition text_height :: "(string \<Rightarrow> bbox) \<Rightarrow> string \<Rightarrow> int" where
  "text_height bbox t = (case bbox t of (x0, y0, x1, y1) \<Rightarrow> y1 - y0)"

text \<open>
  \<open>str.split()\<close> without argument: the maximal runs of characters that are not
  whitespace.  The first argument of \<open>split_acc\<close> is the run read so far.
\<close>

fun split_acc :: "string \<Rightarrow> string \<Rightarrow> string list" where
  "split_acc cur [] = (if cur = [] then [] else [cur])"
| "split_acc cur (c # cs) =
     (if is_space c then (if cur = [] then split_acc [] cs else cur # split_acc [] cs)
      else split_acc (cur @ [c]) cs)"

definition py_split :: "string \<Rightarrow> string list" where
  "py_split t = split_acc [] t"

text \<open>\<open>" ".join(words)\<close>.\<close>

fun join_sp :: "string list \<Rightarrow> string" where
  "join_sp [] = []"
| "join_sp [w] = w"
| "join_sp (w # v # ws) = w @ '' '' @ join_sp (v # ws)"

text \<open>
  \<open>_wrap_text_to_width\<close>: the loop over the words, with the lines committed so far and
  the line being filled.
\<close>

fun greedy_loop :: "(string \<Rightarrow> bbox) \<Rightarrow> int \<Rightarrow> string list \<Rightarrow> string list \<Rightarrow> string \<Rightarrow> string list" where
  "greedy_loop bbox max_width [] lines current =
     (if current \<noteq> [] then lines @ [current] else lines)"
| "greedy_loop bbox max_width (w # ws) lines current =
     (let candidate = strip (current @ '' '' @ w)
      in if text_width bbox candidate \<le> max_width
         then greedy_loop bbox max_width ws lines candidate
         else if current \<noteq> []
              then greedy_loop bbox max_width ws (lines @ [current]) w
              else greedy_loop bbox max_width ws (lines @ [w]) [])"

definition wrap_text_to_width :: "(string \<Rightarrow> bbox) \<Rightarrow> string \<Rightarrow> int \<Rightarrow> string list" where
  "wrap_text_to_width bbox text0 max_width =
     (let text = strip text0
      in if text = [] then []
         else greedy_loop bbox max_width (py_split text) [] [])"

text \<open>
  \<open>_wrap_text_balanced\<close>.  \<open>line_width i j\<close> measures \<open>" ".join(words[i:j])\<close>; its
  cache of widths does not change what it returns and is left out.
\<close>

definition slice :: "'a list \<Rightarrow> nat \<Rightarrow> nat \<Rightarrow> 'a list" where
  "slice xs i j = take (j - i) (drop i xs)"

definition line_width :: "(string \<Rightarrow> bbox) \<Rightarrow> string list \<Rightarrow> nat \<Rightarrow> nat \<Rightarrow> int" where
  "line_width bbox words i j = text_width bbox (join_sp (slice words i j))"

definition inf :: int where
  "inf = 10 ^ 18"

text \<open>
  The inner loop \<open>for j in range(i + 1, n + 1)\<close> from \<open>j\<close> on, on the arrays \<open>cost\<close> and
  \<open>breaks\<close>; it leaves at the first line that is too wide.
\<close>

function inner_loop ::
  "(string \<Rightarrow> bbox) \<Rightarrow> string list \<Rightarrow> int \<Rightarrow> nat \<Rightarrow> nat \<Rightarrow> nat \<Rightarrow> int list \<times> nat list
     \<Rightarrow> int list \<times> nat list" where
  "inner_loop bbox words max_width n i j (cost, breaks) =
     (if n < j then (cost, breaks)
      else
        let width = line_width bbox words i j
        in if max_width < width then (cost, breaks)
           else
             let remaining = max_width - width;
                 penalty = remaining * remaining;
                 total = penalty + cost ! j
             in if total < cost ! i
                then inner_loop bbox words max_width n i (j + 1) (cost[i := total], breaks[i := j])
                else inner_loop bbox words max_width n i (j + 1) (cost, breaks))"
  by pat_completeness auto
termination
  by (relation "measure (\<lambda>(bbox, words, max_width, n, i, j, cb). Suc n - j)") auto

text \<open>The outer loop \<open>for i in range(n - 1, -1, -1)\<close>, over the values of \<open>i\<close> left.\<close>

fun outer_loop ::
  "(string \<Rightarrow> bbox) \<Rightarrow> string list \<Rightarrow> int \<Rightarrow> nat \<Rightarrow> nat list \<Rightarrow> int list \<times> nat list
     \<Rightarrow> int list \<times> nat list" where
  "outer_loop bbox words max_width n [] cb = cb"
| "outer_loop bbox words max_width n (i # is) cb =
     outer_loop bbox words max_width n is (inner_loop bbox words max_width n i (i + 1) cb)"

text \<open>The loop \<open>while idx < n\<close> that reads the lines off \<open>breaks\<close>.\<close>

function collect_lines :: "string list \<Rightarrow> nat list \<Rightarrow> nat \<Rightarrow> nat \<Rightarrow> string list" where
  "collect_lines words breaks n idx =
     (if idx < n
      then
        let nxt = breaks ! idx
        in if nxt \<le> idx then []
           else join_sp (slice words idx nxt) # collect_lines words breaks n nxt
      else [])"
  by pat_completeness auto
termination
  by (relation "measure (\<lambda>(words, breaks, n, idx). n - idx)") auto

definition wrap_text_balanced :: "(string \<Rightarrow> bbox) \<Rightarrow> string \<Rightarrow> int \<Rightarrow> string list" where
  "wrap_text_balanced bbox text0 max_width =
     (let text = strip text0
      in if text = [] then []
         else
           let words = py_split text
           in if words = [] then []
              else if list_ex (\<lambda>word. max_width < text_width bbox word) words
              then wrap_text_to_width bbox text max_width
              else
                let n = length words;
                    cost0 = (replicate (n + 1) inf)[n := 0];
                    breaks0 = replicate n n;
                    cb = outer_loop bbox words max_width n (rev [0..<n]) (cost0, breaks0)
                in if inf \<le> fst cb ! 0 then wrap_text_to_width bbox text max_width
                   else
                     let lines = collect_lines words (snd cb) n 0
                     in if lines \<noteq> [] then lines
                        else wrap_text_to_width bbox text max_width)"

text \<open>
  \<open>_calculate_blurb_height\<close>: the loop over \<open>enumerate(blurb_lines)\<close> with the running
  \<open>total_height\<close>; \<open>len_blurb\<close> is \<open>len(blurb_lines)\<close>.
\<close>

fun blurb_height_loop ::
  "(string \<Rightarrow> bbox) \<Rightarrow> int \<Rightarrow> int \<Rightarrow> int \<Rightarrow> int \<Rightarrow> int \<Rightarrow> int \<Rightarrow> string list \<Rightarrow> int" where
  "blurb_height_loop bbox max_w line_gap para_gap len_blurb idx total_height [] = total_height"
| "blurb_height_loop bbox max_w line_gap para_gap len_blurb idx total_height (para # rest) =
     (let wrapped = wrap_text_balanced bbox para max_w;
          h1 = foldl (\<lambda>t line. t + (text_height bbox line + line_gap)) total_height wrapped;
          h2 = (if wrapped \<noteq> [] then h1 - line_gap else h1);
          h3 = (if idx < len_blurb - 1 then h2 + para_gap else h2)
      in blurb_height_loop bbox max_w line_gap para_gap len_blurb (idx + 1) h3 rest)"

definition calculate_blurb_height ::
  "(string \<Rightarrow> bbox) \<Rightarrow> string list \<Rightarrow> int \<Rightarrow> int \<Rightarrow> int \<Rightarrow> int" where
  "calculate_blurb_height bbox blurb_lines max_w line_gap para_gap =
     blurb_height_loop bbox max_w line_gap para_gap (int (length blurb_lines)) 0 0 blurb_lines"

text \<open>
  \<open>_find_optimal_blurb_font_size\<close>.  Loading a font and measuring with it belong to the
  imaging library: \<open>load_font\<close> and \<open>textbbox\<close> are parameters.  The loop
  \<open>for base_size in range(max_size, min_size - 1, -1)\<close> runs over the sizes left and
  gives the size at which it returns, if it does; \<open>blurb_height_at\<close> is the
  \<open>total_height\<close> that its body computes for one size.
\<close>

definition blurb_height_at ::
  "real \<Rightarrow> (int \<Rightarrow> 'f) \<Rightarrow> ('f \<Rightarrow> string \<Rightarrow> bbox) \<Rightarrow> string list \<Rightarrow> int \<Rightarrow> int \<Rightarrow> int" where
  "blurb_height_at sc load_font textbbox blurb_lines max_w base_size =
     (let font = load_font (s sc (real_of_int base_size));
          line_gap = s sc 4;
          para_gap = s sc 8
      in calculate_blurb_height (textbbox font) blurb_lines max_w line_gap para_gap)"

fun first_fitting_size ::
  "real \<Rightarrow> (int \<Rightarrow> 'f) \<Rightarrow> ('f \<Rightarrow> string \<Rightarrow> bbox) \<Rightarrow> string list \<Rightarrow> int \<Rightarrow> int \<Rightarrow> int list \<Rightarrow> int option" where
  "first_fitting_size sc load_font textbbox blurb_lines max_w max_h [] = None"
| "first_fitting_size sc load_font textbbox blurb_lines max_w max_h (base_size # sizes) =
     (let total_height = blurb_height_at sc load_font textbbox blurb_lines max_w base_size
      in if total_height \<le> max_h then Some base_size
         else first_fitting_size sc load_font textbbox blurb_lines max_w max_h sizes)"

definition min_size :: int where "min_size = 10"
definition max_size :: int where "max_size = 24"

definition optimal_blurb_base_size ::
  "real \<Rightarrow> (int \<Rightarrow> 'f) \<Rightarrow> ('f \<Rightarrow> string \<Rightarrow> bbox) \<Rightarrow> string list \<Rightarrow> int \<Rightarrow> int \<Rightarrow> int" where
  "optimal_blurb_base_size sc load_font textbbox blurb_lines max_w max_h =
     (case first_fitting_size sc load_font textbbox blurb_lines max_w max_h (rev [min_size..max_size]) of
        Some base_size \<Rightarrow> base_size
      | None \<Rightarrow> min_size)"

definition find_optimal_blurb_font_size ::
  "real \<Rightarrow> (int \<Rightarrow> 'f) \<Rightarrow> ('f \<Rightarrow> string \<Rightarrow> bbox) \<Rightarrow> string list \<Rightarrow> int \<Rightarrow> int \<Rightarrow> 'f" where
  "find_optimal_blurb_font_size sc load_font textbbox blurb_lines max_w max_h =
     load_font (s sc (real_of_int (optimal_blurb_base_size sc load_font textbbox blurb_lines max_w max_h)))"

text \<open>
  Layouts, to state what the balanced wrap minimises: a layout of a list of words is a
  list of lines, each a list of words, whose concatenation is the list.  It fits when no
  line is empty and every line, joined with spaces, is at most \<open>max_width\<close> wide; its cost
  is the sum of the squared slack of its lines.  A measure is monotone when a line does
  not get narrower by a word appended to it.  None of these is in the code.
\<close>

definition fits :: "(string \<Rightarrow> bbox) \<Rightarrow> int \<Rightarrow> string list list \<Rightarrow> bool" where
  "fits bbox max_width layout =
     list_all (\<lambda>g. g \<noteq> [] \<and> text_width bbox (join_sp g) \<le> max_width) layout"

definition layout_cost :: "(string \<Rightarrow> bbox) \<Rightarrow> int \<Rightarrow> string list list \<Rightarrow> int" where
  "layout_cost bbox max_width layout =
     sum_list (map (\<lambda>g. (max_width - text_width bbox (join_sp g)) *
                         (max_width - text_width bbox (join_sp g))) layout)"

definition monotone_measure :: "(string \<Rightarrow> bbox) \<Rightarrow> bool" where
  "monotone_measure bbox =
     (\<forall>ws w. ws \<noteq> [] \<longrightarrow> text_width bbox (join_sp ws) \<le> text_width bbox (join_sp (ws @ [w])))"

text \<open>
  For the proofs about \<open>_wrap_text_balanced\<close>: what holds of the arrays \<open>cost\<close> and
  \<open>breaks\<close> once the outer loop has handled the indices from \<open>m\<close> on, and that a line
  too wide stays too wide with one more word.
\<close>

definition dp_inv :: "(string \<Rightarrow> bbox) \<Rightarrow> string list \<Rightarrow> int \<Rightarrow> nat \<Rightarrow> int list \<times> nat list \<Rightarrow> bool" where
  "dp_inv bbox words mw m cb =
     (case cb of
        (cost, breaks) \<Rightarrow>
          length cost = Suc (length words) \<and> length breaks = length words \<and>
          cost ! length words = 0 \<and>
          (\<forall>k. k < m \<longrightarrow> cost ! k = inf) \<and>
          (\<forall>k. m \<le> k \<and> k \<le> length words \<longrightarrow> 0 \<le> cost ! k \<and> cost ! k \<le> inf) \<and>
          (\<forall>k. m \<le> k \<and> k < length words \<and> cost ! k < inf \<longrightarrow>
             k < breaks ! k \<and> breaks ! k \<le> length words \<and>
             line_width bbox words k (breaks ! k) \<le> mw \<and>
             cost ! k =
               (mw - line_width bbox words k (breaks ! k)) *
               (mw - line_width bbox words k (breaks ! k)) + cost ! (breaks ! k) \<and>
             (\<forall>j. k < j \<and> j < breaks ! k \<longrightarrow>
                cost ! k <
                  (mw - line_width bbox words k j) * (mw - line_width bbox words k j) + cost ! j)))"

definition dp_lower :: "(string \<Rightarrow> bbox) \<Rightarrow> string list \<Rightarrow> int \<Rightarrow> nat \<Rightarrow> int list \<Rightarrow> bool" where
  "dp_lower bbox words mw m cost =
     (\<forall>k layout. m \<le> k \<and> k \<le> length words \<and> concat layout = drop k words \<and>
        fits bbox mw layout \<longrightarrow> cost ! k \<le> layout_cost bbox mw layout)"

definition overflow_closed :: "(string \<Rightarrow> bbox) \<Rightarrow> string list \<Rightarrow> int \<Rightarrow> bool" where
  "overflow_closed bbox words mw =
     (\<forall>i j. i < j \<and> j < length words \<and> mw < line_width bbox words i j \<longrightarrow>
        mw < line_width bbox words i (Suc j))"

section \<open>Properties of the colour lookup\<close>

lemma length_FALLBACK_LANGUAGE_COLORS: "length FALLBACK_LANGUAGE_COLORS = 10"
  by (simp add: FALLBACK_LANGUAGE_COLORS_def)

lemma fallback_colors_are_hex: "list_all is_hex_color FALLBACK_LANGUAGE_COLORS"
  by (simp add: FALLBACK_LANGUAGE_COLORS_def is_hex_color_def hex_digit_def)

lemma fallback_lookup:
  "bind_result (py_mod i (int (length FALLBACK_LANGUAGE_COLORS))) (list_index FALLBACK_LANGUAGE_COLORS)
     = Inr (FALLBACK_LANGUAGE_COLORS ! nat (i mod 10))"
proof -
  have "0 \<le> i mod 10" "i mod 10 < 10" by simp_all
  then show ?thesis
    by (simp add: bind_result_def py_mod_def list_index_def length_FALLBACK_LANGUAGE_COLORS)
qed

lemma map_of_in_range: "map_of tbl k = Some v \<Longrightarrow> v \<in> snd ` set tbl"
  by (metis map_of_SomeD image_eqI snd_conv)

lemma find_case_insensitive_in_range:
  "find_case_insensitive tbl l = Some v \<Longrightarrow> v \<in> snd ` set tbl"
  by (induction tbl l rule: find_case_insensitive.induct) (auto split: if_splits)

lemma get_language_color_result:
  "\<exists>c. get_language_color tbl language i = Inr c \<and>
       (c \<in> snd ` set tbl \<or>
        (c = FALLBACK_LANGUAGE_COLORS ! nat (i mod 10) \<and> is_hex_color c)) \<and>
       nat (i mod 10) < length FALLBACK_LANGUAGE_COLORS \<and>
       length FALLBACK_LANGUAGE_COLORS = 10"
proof -
  have bound: "nat (i mod 10) < length FALLBACK_LANGUAGE_COLORS"
    by (simp add: length_FALLBACK_LANGUAGE_COLORS)
  have hex: "is_hex_color (FALLBACK_LANGUAGE_COLORS ! nat (i mod 10))"
    using fallback_colors_are_hex bound by (simp add: list_all_length)
  show ?thesis
  proof (cases "map_of tbl language")
    case (Some c)
    then show ?thesis
      using bound by (simp add: get_language_color_def map_of_in_range length_FALLBACK_LANGUAGE_COLORS)
  next
    case None
    show ?thesis
    proof (cases "find_case_insensitive tbl (lower language)")
      case (Some c)
      then show ?thesis
        using None bound
        by (simp add: get_language_color_def find_case_insensitive_in_range
            length_FALLBACK_LANGUAGE_COLORS)
    next
      case None2: None
      show ?thesis
        using None None2 bound hex
        by (simp add: get_language_color_def length_FALLBACK_LANGUAGE_COLORS
            fallback_lookup [unfolded length_FALLBACK_LANGUAGE_COLORS, simplified])
    qed
  qed
qed

text \<open>
  C10.  \<open>get_language_color\<close> returns a colour and never raises, for every table, every
  language string and every fallback index (negative ones included): the result is a
  value of the table, or the entry of the fallback palette at the index modulo its
  length 10, which is a string \<open>#rrggbb\<close>.  As a function of its arguments it gives
  equal results on equal inputs.
\<close>

theorem get_language_color_total:
  "\<exists>c. get_language_color tbl language i = Inr c \<and>
       (c \<in> snd ` set tbl \<or>
        (c = FALLBACK_LANGUAGE_COLORS ! nat (i mod 10) \<and> is_hex_color c)) \<and>
       nat (i mod 10) < length FALLBACK_LANGUAGE_COLORS \<and>
       length FALLBACK_LANGUAGE_COLORS = 10"
  by (rule get_language_color_result)

section \<open>Properties of the coordinate scaler\<close>








section \<open>Properties of the language bar\<close>

lemma bind_result_Inr [simp]: "bind_result (Inr v) f = f v"
  by (simp add: bind_result_def)

lemma bind_result_Inl [simp]: "bind_result (Inl e) f = Inl e"
  by (simp add: bind_result_def)

lemma fallback_colors_decode:
  "list_all (\<lambda>c. isl (hex_to_rgba c 255) = False) FALLBACK_LANGUAGE_COLORS"
  by (simp add: FALLBACK_LANGUAGE_COLORS_def hex_to_rgba_def hex_to_rgb_def int16_def strip_def
      is_space_def hex_digit_def)

lemma entry_hex_decodes:
  assumes "colors_decode tbl"
  shows "\<exists>hex c. get_language_color tbl lang i = Inr hex \<and> hex_to_rgba hex 255 = Inr c"
proof -
  obtain hex where hex: "get_language_color tbl lang i = Inr hex"
    and cases: "hex \<in> snd ` set tbl \<or> hex = FALLBACK_LANGUAGE_COLORS ! nat (i mod 10)"
    and bound: "nat (i mod 10) < length FALLBACK_LANGUAGE_COLORS"
    using get_language_color_result [of tbl lang i] by blast
  have "isl (hex_to_rgba hex 255) = False"
    using cases
  proof
    assume "hex \<in> snd ` set tbl"
    then show ?thesis using assms by (auto simp: colors_decode_def list_all_iff)
  next
    assume "hex = FALLBACK_LANGUAGE_COLORS ! nat (i mod 10)"
    then show ?thesis using fallback_colors_decode bound by (simp add: list_all_length)
  qed
  then obtain c where "hex_to_rgba hex 255 = Inr c" by (cases "hex_to_rgba hex 255") auto
  with hex show ?thesis by blast
qed

lemma seg_projections [simp]:
  "seg_start (a, b, c) = a" "seg_end (a, b, c) = b" "seg_color (a, b, c) = c"
  "seg_height (a, b, c) = b - a"
  by (simp_all add: seg_start_def seg_end_def seg_color_def seg_height_def)

lemma entry_color_decodes:
  assumes "colors_decode tbl"
  shows "\<exists>c. entry_color tbl lang i = Inr c"
  using entry_hex_decodes [OF assms, of lang i] by (auto simp: entry_color_def)

lemma segment_loop_drawn:
  assumes "colors_decode tbl"
    and "segment_height sb tp h n i cy p = Inr ht" and "1 \<le> ht"
  shows "\<exists>c. entry_color tbl lang i = Inr c \<and>
    segment_loop tbl sb tp h n i cy ((lang, p) # rest) =
      bind_result (segment_loop tbl sb tp h n (i + 1) (cy + ht) rest)
        (\<lambda>segments. Inr ((cy, cy + ht, c) # segments))"
proof -
  obtain c where "entry_color tbl lang i = Inr c"
    using entry_color_decodes [OF assms(1)] by blast
  then show ?thesis using assms(2,3) by simp
qed

lemma segment_loop_skipped:
  assumes "segment_height sb tp h n i cy p = Inr ht" and "ht < 1"
  shows "segment_loop tbl sb tp h n i cy ((lang, p) # rest) =
    segment_loop tbl sb tp h n (i + 1) cy rest"
  using assms by simp

lemma segment_loop_error:
  assumes "segment_height sb tp h n i cy p = Inl e"
  shows "segment_loop tbl sb tp h n i cy ((lang, p) # rest) = Inl e"
  using assms by simp

declare segment_loop.simps(2) [simp del]

lemma segment_loop_contiguous:
  "segment_loop tbl sb tp h n i cy langs = Inr segs \<Longrightarrow> contiguous_from cy segs"
proof (induction langs arbitrary: i cy segs)
  case Nil
  then show ?case by simp
next
  case (Cons x rest)
  obtain lang p where x: "x = (lang, p)" by (cases x)
  show ?case
  proof (cases "segment_height sb tp h n i cy p")
    case (Inl e)
    then show ?thesis using Cons.prems x by (simp add: segment_loop_error)
  next
    case (Inr ht)
    show ?thesis
    proof (cases "ht < 1")
      case True
      then show ?thesis using Cons Inr x by (simp add: segment_loop_skipped)
    next
      case False
      then show ?thesis
        using Cons.prems Inr x Cons.IH [of "i + 1" "cy + ht"]
        by (auto simp: segment_loop.simps(2) bind_result_def split: sum.splits)
    qed
  qed
qed


















lemma get_language_color_exact:
  "map_of tbl lang = Some c \<Longrightarrow> get_language_color tbl lang i = Inr c"
  by (simp add: get_language_color_def)

lemma get_language_color_insensitive:
  "map_of tbl lang = None \<Longrightarrow> find_case_insensitive tbl (lower lang) = Some c \<Longrightarrow>
     get_language_color tbl lang i = Inr c"
  by (simp add: get_language_color_def)

lemma get_language_color_fallback:
  "map_of tbl lang = None \<Longrightarrow> find_case_insensitive tbl (lower lang) = None \<Longrightarrow>
     get_language_color tbl lang i = Inr (FALLBACK_LANGUAGE_COLORS ! nat (i mod 10))"
  by (simp add: get_language_color_def fallback_lookup)

lemma legend_loop_positions:
  "legend_loop tbl (int i) langs =
     map_result (\<lambda>(k, lang, p). bind_result (entry_color tbl lang (int k)) (\<lambda>c. Inr (Legend lang p c)))
       (enumerate i langs)"
proof (induction langs arbitrary: i)
  case Nil
  then show ?case by simp
next
  case (Cons x rest)
  obtain lang p where x: "x = (lang, p)" by (cases x)
  have ih: "legend_loop tbl (int i + 1) rest =
     map_result (\<lambda>(k, lang, p). bind_result (entry_color tbl lang (int k)) (\<lambda>c. Inr (Legend lang p c)))
       (enumerate (Suc i) rest)"
    using Cons.IH [of "Suc i"] by (simp add: add.commute)
  show ?case
    unfolding x by (cases "entry_color tbl lang (int i)") (simp_all add: ih)
qed

lemma segment_loop_positions:
  "segment_loop tbl sb tp h n i cy langs = Inr segs \<Longrightarrow>
     \<exists>ks. sorted_wrt (<) ks \<and> set ks \<subseteq> {..<length langs} \<and>
       map (\<lambda>sg. Inr (seg_color sg)) segs =
         map (\<lambda>k. entry_color tbl (fst (langs ! k)) (i + int k)) ks"
proof (induction langs arbitrary: i cy segs)
  case Nil
  then show ?case by simp
next
  case (Cons x rest)
  obtain lang p where x: "x = (lang, p)" by (cases x)
  show ?case
  proof (cases "segment_height sb tp h n i cy p")
    case (Inl e)
    then show ?thesis using Cons.prems x by (simp add: segment_loop_error)
  next
    case (Inr ht)
    show ?thesis
    proof (cases "ht < 1")
      case True
      then have "segment_loop tbl sb tp h n (i + 1) cy rest = Inr segs"
        using Cons.prems x Inr by (simp add: segment_loop_skipped)
      then obtain ks where ks: "sorted_wrt (<) ks" "set ks \<subseteq> {..<length rest}"
        "map (\<lambda>sg. Inr (seg_color sg)) segs =
           map (\<lambda>k. entry_color tbl (fst (rest ! k)) (i + 1 + int k)) ks"
        using Cons.IH by blast
      have "sorted_wrt (<) (map Suc ks)" using ks(1) by (simp add: sorted_wrt_map)
      moreover have "set (map Suc ks) \<subseteq> {..<length (x # rest)}" using ks(2) by auto
      moreover have "map (\<lambda>sg. Inr (seg_color sg)) segs =
           map (\<lambda>k. entry_color tbl (fst ((x # rest) ! k)) (i + int k)) (map Suc ks)"
        using ks(3) by (simp add: comp_def ac_simps)
      ultimately show ?thesis by blast
    next
      case False
      then obtain c segs' where c: "entry_color tbl lang i = Inr c"
        and rest: "segment_loop tbl sb tp h n (i + 1) (cy + ht) rest = Inr segs'"
        and segs: "segs = (cy, cy + ht, c) # segs'"
        using Cons.prems x Inr
        by (auto simp: segment_loop.simps(2) bind_result_def split: sum.splits)
      obtain ks where ks: "sorted_wrt (<) ks" "set ks \<subseteq> {..<length rest}"
        "map (\<lambda>sg. Inr (seg_color sg)) segs' =
           map (\<lambda>k. entry_color tbl (fst (rest ! k)) (i + 1 + int k)) ks"
        using Cons.IH [OF rest] by blast
      have "sorted_wrt (<) (0 # map Suc ks)" using ks(1) by (simp add: sorted_wrt_map)
      moreover have "set (0 # map Suc ks) \<subseteq> {..<length (x # rest)}" using ks(2) by auto
      moreover have "map (\<lambda>sg. Inr (seg_color sg)) segs =
           map (\<lambda>k. entry_color tbl (fst ((x # rest) ! k)) (i + int k)) (0 # map Suc ks)"
        using ks(3) c segs x by (simp add: comp_def ac_simps)
      ultimately show ?thesis by blast
    qed
  qed
qed

text \<open>
  C2, amended.  The colour of a language entry is the exact match of its name in the
  table, otherwise the first case-insensitive match, otherwise the fallback palette at
  the index it is given, modulo 10; and the index given is the entry's position in the
  list of visible languages, whether or not earlier entries matched.  The legend colours
  every visible entry \<open>k\<close> with \<open>hex_to_rgba(get_language_color(lang, k))\<close>; the segments
  of the bar carry, in order, the colours so computed at the positions of the entries
  that got a segment.
\<close>

theorem entry_colors_by_position:
  "(map_of tbl lang = Some c \<longrightarrow> get_language_color tbl lang i = Inr c) \<and>
   (map_of tbl lang = None \<and> find_case_insensitive tbl (lower lang) = Some c \<longrightarrow>
      get_language_color tbl lang i = Inr c) \<and>
   (map_of tbl lang = None \<and> find_case_insensitive tbl (lower lang) = None \<longrightarrow>
      get_language_color tbl lang i = Inr (FALLBACK_LANGUAGE_COLORS ! nat (i mod 10))) \<and>
   draw_vertical_language_legend tbl languages =
     map_result (\<lambda>(k, lang, p). bind_result (entry_color tbl lang (int k)) (\<lambda>c. Inr (Legend lang p c)))
       (enumerate 0 (take 5 languages)) \<and>
   (segment_loop tbl sb tp h n 0 0 visible = Inr segs \<longrightarrow>
      (\<exists>ks. sorted_wrt (<) ks \<and> set ks \<subseteq> {..<length visible} \<and>
         map (\<lambda>sg. Inr (seg_color sg)) segs =
           map (\<lambda>k. entry_color tbl (fst (visible ! k)) (int k)) ks))"
proof -
  have "draw_vertical_language_legend tbl languages =
     map_result (\<lambda>(k, lang, p). bind_result (entry_color tbl lang (int k)) (\<lambda>c. Inr (Legend lang p c)))
       (enumerate 0 (take 5 languages))"
    using legend_loop_positions [of tbl 0 "take 5 languages"]
    by (simp add: draw_vertical_language_legend_def)
  moreover have "\<exists>ks. sorted_wrt (<) ks \<and> set ks \<subseteq> {..<length visible} \<and>
         map (\<lambda>sg. Inr (seg_color sg)) segs =
           map (\<lambda>k. entry_color tbl (fst (visible ! k)) (int k)) ks"
    if "segment_loop tbl sb tp h n 0 0 visible = Inr segs"
    using segment_loop_positions [OF that] by simp
  ultimately show ?thesis
    using get_language_color_exact get_language_color_insensitive get_language_color_fallback
    by blast
qed

theorem entry_colors_by_position_witness:
  "get_language_color [(''Python'', ''#3572A5'')] ''Python'' 0 = Inr ''#3572A5'' \<and>
   get_language_color [(''Python'', ''#3572A5'')] ''python'' 1 = Inr ''#3572A5'' \<and>
   get_language_color [(''Python'', ''#3572A5'')] ''Foo'' 11 = Inr (FALLBACK_LANGUAGE_COLORS ! nat (11 mod 10)) \<and>
   (\<exists>ks. sorted_wrt (<) ks \<and> set ks \<subseteq> {..<length [(''Python'', 60 :: real), (''Foo'', 40)]} \<and>
      map (\<lambda>sg. Inr (seg_color sg)) [(0, 98, 53, 114, 165, 255), (98, 163, 152, 195, 121, 255)] =
        map (\<lambda>k. entry_color [(''Python'', ''#3572A5'')] (fst ([(''Python'', 60 :: real), (''Foo'', 40)] ! k)) (int k)) ks)"
proof -
  have h1: "map_of [(''Python'', ''#3572A5'')] ''Python'' = Some ''#3572A5''"
    by simp
  have h2: "map_of [(''Python'', ''#3572A5'')] ''python'' = None \<and>
      find_case_insensitive [(''Python'', ''#3572A5'')] (lower ''python'') = Some ''#3572A5''"
    by code_simp
  have h3: "map_of [(''Python'', ''#3572A5'')] ''Foo'' = None \<and> find_case_insensitive [(''Python'', ''#3572A5'')] (lower ''Foo'') = None"
    by code_simp
  have h4: "segment_loop [(''Python'', ''#3572A5'')] True 100 164 2 0 0 [(''Python'', 60), (''Foo'', 40)] =
      Inr [(0, 98, 53, 114, 165, 255), (98, 163, 152, 195, 121, 255)]"
    by code_simp
  show ?thesis
    using h1 h2 h3 h4
      entry_colors_by_position [where tbl = "[(''Python'', ''#3572A5'')]" and lang = "''Python''"
        and c = "''#3572A5''" and i = 0]
      entry_colors_by_position [where tbl = "[(''Python'', ''#3572A5'')]" and lang = "''python''"
        and c = "''#3572A5''" and i = 1]
      entry_colors_by_position [where tbl = "[(''Python'', ''#3572A5'')]" and lang = "''Foo''" and i = 11
        and sb = True and tp = 100 and h = 164 and n = 2
        and visible = "[(''Python'', 60), (''Foo'', 40)]"
        and segs = "[(0, 98, 53, 114, 165, 255), (98, 163, 152, 195, 121, 255)]"]
    by blast
qed

text \<open>
  The fallback index is not the rank among the entries that needed the fallback: with
  only Python in the table, the unknown language in second place is the first to need
  the fallback, and the code gives it fallback colour 1, not fallback colour 0.
\<close>

theorem fallback_rank_counterexample:
  "draw_vertical_language_legend [(''Python'', ''#3572A5'')] [(''Python'', 60), (''Foo'', 40)] =
     Inr [Legend ''Python'' 60 (53, 114, 165, 255), Legend ''Foo'' 40 (152, 195, 121, 255)] \<and>
   draw_vertical_language_bar 1 (86, 95, 137, 255) [(''Python'', ''#3572A5'')] 164
       [(''Python'', 60), (''Foo'', 40)] True False False =
     Inr [Background, Block 0 98 (53, 114, 165, 255), Block 98 163 (152, 195, 121, 255), Paste] \<and>
   spec_entry_colors [(''Python'', ''#3572A5'')] 0 [(''Python'', 60), (''Foo'', 40)] =
     [Inr (53, 114, 165, 255), Inr (224, 108, 117, 255)]"
  by code_simp

section \<open>Properties of the gradient fill\<close>

lemma contiguous_from_start_ge:
  "contiguous_from y segs \<Longrightarrow> j < length segs \<Longrightarrow> y \<le> seg_start (segs ! j)"
proof (induction segs arbitrary: y j)
  case Nil
  then show ?case by simp
next
  case (Cons sg rest)
  from Cons.prems(1) have st: "seg_start sg = y" and pos: "seg_start sg < seg_end sg"
    and cont: "contiguous_from (seg_end sg) rest" by simp_all
  show ?case
  proof (cases j)
    case 0
    then show ?thesis using st by simp
  next
    case (Suc j')
    then have "j' < length rest" using Cons.prems(2) by simp
    from Cons.IH [OF cont this] have "seg_end sg \<le> seg_start (rest ! j')" .
    then show ?thesis using st pos Suc by simp
  qed
qed

lemma contiguous_from_next:
  "contiguous_from y segs \<Longrightarrow> Suc j < length segs \<Longrightarrow>
     seg_start (segs ! Suc j) = seg_end (segs ! j)"
proof (induction y segs arbitrary: j rule: contiguous_from.induct)
  case (1 y)
  then show ?case by simp
next
  case (2 y sg rest)
  show ?case
  proof (cases j)
    case 0
    then show ?thesis using 2 by (cases rest) simp_all
  next
    case (Suc j')
    then show ?thesis using 2 by simp
  qed
qed

lemma contiguous_from_positive:
  "contiguous_from y segs \<Longrightarrow> j < length segs \<Longrightarrow> seg_start (segs ! j) < seg_end (segs ! j)"
proof (induction y segs arbitrary: j rule: contiguous_from.induct)
  case (1 y)
  then show ?case by simp
next
  case (2 y sg rest)
  then show ?case by (cases j) simp_all
qed

lemma scan_segments_hit:
  "contiguous_from y rest \<Longrightarrow> j < length rest \<Longrightarrow>
   seg_start (rest ! j) \<le> row \<Longrightarrow> row < seg_end (rest ! j) \<Longrightarrow>
   scan_segments segs g row k rest =
     bind_result (color_in_segment segs g row (k + j) (rest ! j)) (\<lambda>c. Inr (Some c))"
proof (induction rest arbitrary: y j k)
  case Nil
  then show ?case by simp
next
  case (Cons sg rest)
  from Cons.prems(1) have st: "seg_start sg = y" and pos: "seg_start sg < seg_end sg"
    and cont: "contiguous_from (seg_end sg) rest" by simp_all
  show ?case
  proof (cases j)
    case 0
    then show ?thesis using Cons.prems by simp
  next
    case (Suc j')
    then have j': "j' < length rest" and lo: "seg_start (rest ! j') \<le> row"
      and hi: "row < seg_end (rest ! j')" using Cons.prems by simp_all
    have "seg_end sg \<le> seg_start (rest ! j')"
      using contiguous_from_start_ge [OF cont j'] .
    then have out: "\<not> (seg_start sg \<le> row \<and> row < seg_end sg)" using lo by simp
    have "scan_segments segs g row (Suc k) rest =
        bind_result (color_in_segment segs g row (Suc k + j') (rest ! j')) (\<lambda>c. Inr (Some c))"
      using Cons.IH [OF cont j' lo hi] .
    moreover have "scan_segments segs g row k (sg # rest) = scan_segments segs g row (Suc k) rest"
      using out by auto
    ultimately show ?thesis using Suc by simp
  qed
qed

lemma scan_segments_next_first_hit:
  "contiguous_from y rest \<Longrightarrow> j < length rest \<Longrightarrow>
   seg_start (rest ! j) \<le> row \<Longrightarrow> row < seg_end (rest ! j) \<Longrightarrow>
   scan_segments_next_first segs g row k rest =
     bind_result (color_in_segment_next_first segs g row (k + j) (rest ! j)) (\<lambda>c. Inr (Some c))"
proof (induction rest arbitrary: y j k)
  case Nil
  then show ?case by simp
next
  case (Cons sg rest)
  from Cons.prems(1) have st: "seg_start sg = y" and pos: "seg_start sg < seg_end sg"
    and cont: "contiguous_from (seg_end sg) rest" by simp_all
  show ?case
  proof (cases j)
    case 0
    then show ?thesis using Cons.prems by simp
  next
    case (Suc j')
    then have j': "j' < length rest" and lo: "seg_start (rest ! j') \<le> row"
      and hi: "row < seg_end (rest ! j')" using Cons.prems by simp_all
    have "seg_end sg \<le> seg_start (rest ! j')"
      using contiguous_from_start_ge [OF cont j'] .
    then have out: "\<not> (seg_start sg \<le> row \<and> row < seg_end sg)" using lo by simp
    have "scan_segments_next_first segs g row (Suc k) rest =
        bind_result (color_in_segment_next_first segs g row (Suc k + j') (rest ! j')) (\<lambda>c. Inr (Some c))"
      using Cons.IH [OF cont j' lo hi] .
    moreover have "scan_segments_next_first segs g row k (sg # rest) = scan_segments_next_first segs g row (Suc k) rest"
      using out by auto
    ultimately show ?thesis using Suc by simp
  qed
qed

lemma row_color_hit:
  assumes "contiguous_from y segs" and "i < length segs"
    and "seg_start (segs ! i) \<le> row" and "row < seg_end (segs ! i)"
  shows "row_color sec segs g row = color_in_segment segs g row i (segs ! i)"
  using scan_segments_hit [OF assms, of segs g 0]
  by (cases "color_in_segment segs g row i (segs ! i)") (simp_all add: row_color_def)

lemma row_color_next_first_hit:
  assumes "contiguous_from y segs" and "i < length segs"
    and "seg_start (segs ! i) \<le> row" and "row < seg_end (segs ! i)"
  shows "row_color_next_first sec segs g row = color_in_segment_next_first segs g row i (segs ! i)"
  using scan_segments_next_first_hit [OF assms, of segs g 0]
  by (cases "color_in_segment_next_first segs g row i (segs ! i)")
    (simp_all add: row_color_next_first_def)

lemma color_in_segment_orders_agree:
  assumes "\<not> (0 < i \<and> row - seg_start sg < g \<and>
              i < length segs - 1 \<and> seg_start (segs ! (i + 1)) - row \<le> g)"
  shows "color_in_segment segs g row i sg = color_in_segment_next_first segs g row i sg"
  using assms by (auto simp: color_in_segment_def color_in_segment_next_first_def)

lemma both_bands_row_exists:
  assumes "a < b" and "b - a < 2 * g"
  shows "\<exists>r :: int. a \<le> r \<and> r < b \<and> r - a < g \<and> b - r \<le> g"
proof (cases "b - a \<le> g")
  case True
  then show ?thesis using assms by (intro exI [of _ a]) auto
next
  case False
  then show ?thesis using assms by (intro exI [of _ "b - g"]) auto
qed

text \<open>
  C9.  In gradient mode, for segments that lie one after the other (as the segment loop
  produces them) and a row inside segment \<open>i\<close>: when the row is within the band after the
  previous boundary the colour is the blend from the previous segment's colour, also when
  the row is within the band before the next boundary as well, since that test comes
  first; otherwise, within the band before the next boundary, it is the blend toward the
  next segment's colour; outside both bands it is the segment's own colour.  With the
  two tests in the other order a row in both bands would get the blend toward the next
  colour instead.  The two orders can differ only on a row in both bands, such rows
  exist exactly in the inner segments less than twice the band high, and on the row 12
  of segments 0-10, 10-14, 14-30 with band 8 the two orders do give different colours.
\<close>

theorem gradient_from_previous_first:
  assumes "contiguous_from y segs" and "i < length segs"
    and "seg_start (segs ! i) \<le> row" and "row < seg_end (segs ! i)"
  shows
    "(0 < i \<and> row - seg_start (segs ! i) < g \<longrightarrow>
        row_color sec segs g row =
          Inr (blend_colors (seg_color (segs ! (i - 1))) (seg_color (segs ! i))
                 (real_of_int (row - seg_start (segs ! i)) / real_of_int g))) \<and>
     (\<not> (0 < i \<and> row - seg_start (segs ! i) < g) \<and>
      Suc i < length segs \<and> seg_start (segs ! (i + 1)) - row \<le> g \<longrightarrow>
        row_color sec segs g row =
          Inr (blend_colors (seg_color (segs ! i)) (seg_color (segs ! (i + 1)))
                 (1 - real_of_int (seg_start (segs ! (i + 1)) - row) / real_of_int g))) \<and>
     (\<not> (0 < i \<and> row - seg_start (segs ! i) < g) \<and>
      \<not> (Suc i < length segs \<and> seg_start (segs ! (i + 1)) - row \<le> g) \<longrightarrow>
        row_color sec segs g row = Inr (seg_color (segs ! i))) \<and>
     (0 < i \<and> row - seg_start (segs ! i) < g \<and>
      Suc i < length segs \<and> seg_start (segs ! (i + 1)) - row \<le> g \<longrightarrow>
        row_color_next_first sec segs g row =
          Inr (blend_colors (seg_color (segs ! i)) (seg_color (segs ! (i + 1)))
                 (1 - real_of_int (seg_start (segs ! (i + 1)) - row) / real_of_int g))) \<and>
     (row_color sec segs g row \<noteq> row_color_next_first sec segs g row \<longrightarrow>
        0 < i \<and> row - seg_start (segs ! i) < g \<and>
        Suc i < length segs \<and> seg_start (segs ! (i + 1)) - row \<le> g \<and>
        seg_height (segs ! i) < 2 * g) \<and>
     (0 < i \<and> Suc i < length segs \<and> seg_height (segs ! i) < 2 * g \<longrightarrow>
        (\<exists>r. seg_start (segs ! i) \<le> r \<and> r < seg_end (segs ! i) \<and>
             r - seg_start (segs ! i) < g \<and> seg_start (segs ! (i + 1)) - r \<le> g)) \<and>
     row_color sec [(0, 10, 255, 0, 0, 255), (10, 14, 0, 255, 0, 255), (14, 30, 0, 0, 255, 255)] 8 12
       \<noteq> row_color_next_first sec
           [(0, 10, 255, 0, 0, 255), (10, 14, 0, 255, 0, 255), (14, 30, 0, 0, 255, 255)] 8 12"
proof -
  let ?sg = "segs ! i"
  let ?d = "row - seg_start ?sg"
  let ?dn = "seg_start (segs ! (i + 1)) - row"
  have rc: "row_color sec segs g row = color_in_segment segs g row i ?sg"
    using assms by (rule row_color_hit)
  have rn: "row_color_next_first sec segs g row = color_in_segment_next_first segs g row i ?sg"
    using assms by (rule row_color_next_first_hit)
  have d0: "0 \<le> ?d" using assms(3) by simp
  have nxt: "seg_start (segs ! (i + 1)) = seg_end ?sg" if "Suc i < length segs"
    using contiguous_from_next [OF assms(1) that] by simp
  have dn1: "1 \<le> ?dn" if "Suc i < length segs" using nxt [OF that] assms(4) by simp
  have idx: "i < length segs - 1 \<longleftrightarrow> Suc i < length segs" by auto
  have c1: "row_color sec segs g row =
          Inr (blend_colors (seg_color (segs ! (i - 1))) (seg_color ?sg)
                 (real_of_int ?d / real_of_int g))"
    if "0 < i" "?d < g"
  proof -
    have "g \<noteq> 0" using that d0 by auto
    then show ?thesis using that by (simp add: rc color_in_segment_def py_truediv_def)
  qed
  have c2: "row_color sec segs g row =
          Inr (blend_colors (seg_color ?sg) (seg_color (segs ! (i + 1)))
                 (1 - real_of_int ?dn / real_of_int g))"
    if "\<not> (0 < i \<and> ?d < g)" "Suc i < length segs" "?dn \<le> g"
  proof -
    have "g \<noteq> 0" using that dn1 by auto
    then show ?thesis using that idx by (auto simp add: rc color_in_segment_def py_truediv_def)
  qed
  have c3: "row_color sec segs g row = Inr (seg_color ?sg)"
    if "\<not> (0 < i \<and> ?d < g)" "\<not> (Suc i < length segs \<and> ?dn \<le> g)"
    using that idx by (auto simp add: rc color_in_segment_def)
  have c4: "row_color_next_first sec segs g row =
          Inr (blend_colors (seg_color ?sg) (seg_color (segs ! (i + 1)))
                 (1 - real_of_int ?dn / real_of_int g))"
    if "Suc i < length segs" "?dn \<le> g"
  proof -
    have "g \<noteq> 0" using that dn1 by auto
    then show ?thesis using that idx
      by (auto simp add: rn color_in_segment_next_first_def py_truediv_def)
  qed
  have c5: "0 < i \<and> ?d < g \<and> Suc i < length segs \<and> ?dn \<le> g \<and> seg_height ?sg < 2 * g"
    if neq: "row_color sec segs g row \<noteq> row_color_next_first sec segs g row"
  proof -
    have both: "0 < i \<and> ?d < g \<and> i < length segs - 1 \<and> ?dn \<le> g"
    proof (rule ccontr)
      assume "\<not> (0 < i \<and> ?d < g \<and> i < length segs - 1 \<and> ?dn \<le> g)"
      then have "color_in_segment segs g row i ?sg = color_in_segment_next_first segs g row i ?sg"
        by (rule color_in_segment_orders_agree)
      then show False using neq rc rn by simp
    qed
    then have s: "Suc i < length segs" using idx by simp
    have "seg_height ?sg = ?d + ?dn" using nxt [OF s] by (simp add: seg_height_def)
    then show ?thesis using both s by auto
  qed
  have c6: "\<exists>r. seg_start ?sg \<le> r \<and> r < seg_end ?sg \<and>
             r - seg_start ?sg < g \<and> seg_start (segs ! (i + 1)) - r \<le> g"
    if "Suc i < length segs" "seg_height ?sg < 2 * g"
  proof -
    have "seg_start ?sg < seg_end ?sg" using assms(3,4) by simp
    moreover have "seg_end ?sg - seg_start ?sg < 2 * g" using that(2) by (simp add: seg_height_def)
    ultimately show ?thesis using both_bands_row_exists [of "seg_start ?sg" "seg_end ?sg" g]
      nxt [OF that(1)] by simp
  qed
  have "row_color sec [(0, 10, 255, 0, 0, 255), (10, 14, 0, 255, 0, 255), (14, 30, 0, 0, 255, 255)] 8 12
       = Inr (191, 63, 0, 255)"
    by code_simp
  moreover have "row_color_next_first sec
       [(0, 10, 255, 0, 0, 255), (10, 14, 0, 255, 0, 255), (14, 30, 0, 0, 255, 255)] 8 12
       = Inr (0, 63, 191, 255)"
    by code_simp
  ultimately have c7:
    "row_color sec [(0, 10, 255, 0, 0, 255), (10, 14, 0, 255, 0, 255), (14, 30, 0, 0, 255, 255)] 8 12
       \<noteq> row_color_next_first sec
           [(0, 10, 255, 0, 0, 255), (10, 14, 0, 255, 0, 255), (14, 30, 0, 0, 255, 255)] 8 12"
    by simp
  show ?thesis
  proof (intro conjI impI)
    show "row_color sec [(0, 10, 255, 0, 0, 255), (10, 14, 0, 255, 0, 255), (14, 30, 0, 0, 255, 255)] 8 12
       \<noteq> row_color_next_first sec
           [(0, 10, 255, 0, 0, 255), (10, 14, 0, 255, 0, 255), (14, 30, 0, 0, 255, 255)] 8 12"
      by (rule c7)
  qed (use c1 c2 c3 c4 c5 c6 in blast)+
qed

theorem gradient_from_previous_first_witness:
  "row_color (86, 95, 137, 255)
      [(0, 10, 255, 0, 0, 255), (10, 14, 0, 255, 0, 255), (14, 30, 0, 0, 255, 255)] 8 12 =
     Inr (blend_colors (255, 0, 0, 255) (0, 255, 0, 255) (2 / 8)) \<and>
   row_color_next_first (86, 95, 137, 255)
      [(0, 10, 255, 0, 0, 255), (10, 14, 0, 255, 0, 255), (14, 30, 0, 0, 255, 255)] 8 12 =
     Inr (blend_colors (0, 255, 0, 255) (0, 0, 255, 255) (1 - 2 / 8)) \<and>
   row_color (86, 95, 137, 255)
      [(0, 20, 255, 0, 0, 255), (20, 50, 0, 255, 0, 255), (50, 60, 0, 0, 255, 255)] 8 45 =
     Inr (blend_colors (0, 255, 0, 255) (0, 0, 255, 255) (1 - 5 / 8)) \<and>
   row_color (86, 95, 137, 255)
      [(0, 20, 255, 0, 0, 255), (20, 50, 0, 255, 0, 255), (50, 60, 0, 0, 255, 255)] 8 30 =
     Inr (0, 255, 0, 255) \<and>
   (\<exists>r :: int. 10 \<le> r \<and> r < 14 \<and> r - 10 < 8 \<and> 14 - r \<le> 8)"
proof -
  let ?S1 = "[(0, 10, 255, 0, 0, 255), (10, 14, 0, 255, 0, 255), (14, 30, 0, 0, 255, 255)] :: segment list"
  let ?S2 = "[(0, 20, 255, 0, 0, 255), (20, 50, 0, 255, 0, 255), (50, 60, 0, 0, 255, 255)] :: segment list"
  have k1: "contiguous_from 0 ?S1" and k2: "contiguous_from 0 ?S2" by simp_all
  have i1: "(1 :: nat) < length ?S1" and i2: "(1 :: nat) < length ?S2" by simp_all
  have lo1: "seg_start (?S1 ! 1) \<le> 12" and hi1: "12 < seg_end (?S1 ! 1)" by simp_all
  have lo2: "seg_start (?S2 ! 1) \<le> 45" and hi2: "45 < seg_end (?S2 ! 1)" by simp_all
  have lo3: "seg_start (?S2 ! 1) \<le> 30" and hi3: "30 < seg_end (?S2 ! 1)" by simp_all
  note a = gradient_from_previous_first [OF k1 i1 lo1 hi1, of 8 "(86, 95, 137, 255)"]
  note b = gradient_from_previous_first [OF k2 i2 lo2 hi2, of 8 "(86, 95, 137, 255)"]
  note c = gradient_from_previous_first [OF k2 i2 lo3 hi3, of 8 "(86, 95, 137, 255)"]
  have c1: "row_color (86, 95, 137, 255) ?S1 8 12 =
     Inr (blend_colors (255, 0, 0, 255) (0, 255, 0, 255) (2 / 8))"
    using a [THEN conjunct1] by simp
  have c2: "row_color_next_first (86, 95, 137, 255) ?S1 8 12 =
     Inr (blend_colors (0, 255, 0, 255) (0, 0, 255, 255) (1 - 2 / 8))"
    using a [THEN conjunct2, THEN conjunct2, THEN conjunct2, THEN conjunct1] by simp
  have c3: "row_color (86, 95, 137, 255) ?S2 8 45 =
     Inr (blend_colors (0, 255, 0, 255) (0, 0, 255, 255) (1 - 5 / 8))"
    using b [THEN conjunct2, THEN conjunct1] by simp
  have c4: "row_color (86, 95, 137, 255) ?S2 8 30 = Inr (0, 255, 0, 255)"
    using c [THEN conjunct2, THEN conjunct2, THEN conjunct1] by simp
  have c5: "\<exists>r :: int. 10 \<le> r \<and> r < 14 \<and> r - 10 < 8 \<and> 14 - r \<le> 8"
    using a [THEN conjunct2, THEN conjunct2, THEN conjunct2, THEN conjunct2, THEN conjunct2,
        THEN conjunct1]
    by simp
  show ?thesis using c1 c2 c3 c4 c5 by (intro conjI)
qed

section \<open>Nothing to draw\<close>

lemma int16_error: "int16 t = Inl e \<Longrightarrow> e = ValueError"
  by (auto simp: int16_def Let_def split: list.splits if_splits prod.splits)

lemma hex_to_rgba_error: "hex_to_rgba hex a = Inl e \<Longrightarrow> e = ValueError"
  by (auto simp: hex_to_rgba_def hex_to_rgb_def Let_def bind_result_def
      split: sum.splits dest: int16_error)

lemma entry_color_error: "entry_color tbl lang i = Inl e \<Longrightarrow> e = ValueError"
proof -
  assume a: "entry_color tbl lang i = Inl e"
  obtain hex where "get_language_color tbl lang i = Inr hex"
    using get_language_color_result [of tbl lang i] by blast
  then show ?thesis using a by (simp add: entry_color_def hex_to_rgba_error)
qed

lemma segment_height_ok:
  assumes "sb \<longrightarrow> tp \<noteq> 0" and "\<not> sb \<longrightarrow> n \<noteq> 0"
  shows "\<exists>ht. segment_height sb tp h n i cy p = Inr ht"
  using assms by (cases sb) (simp_all add: segment_height_def py_truediv_def py_floordiv_def)

lemma segment_loop_error_kind:
  assumes "sb \<longrightarrow> tp \<noteq> 0" and "\<not> sb \<longrightarrow> n \<noteq> 0"
  shows "segment_loop tbl sb tp h n i cy langs = Inl e \<Longrightarrow> e = ValueError"
proof (induction langs arbitrary: i cy e)
  case Nil
  then show ?case by simp
next
  case (Cons x rest)
  obtain lang p where x: "x = (lang, p)" by (cases x)
  obtain ht where ht: "segment_height sb tp h n i cy p = Inr ht"
    using segment_height_ok [OF assms] by blast
  show ?case
  proof (cases "ht < 1")
    case True
    then show ?thesis using Cons x segment_loop_skipped [OF ht True, of tbl lang rest] by simp
  next
    case False
    show ?thesis
    proof (cases "entry_color tbl lang i")
      case (Inl e')
      then have "e' = ValueError" by (rule entry_color_error)
      then show ?thesis using Cons.prems x ht False Inl by (simp add: segment_loop.simps(2))
    next
      case (Inr c)
      show ?thesis
      proof (cases "segment_loop tbl sb tp h n (i + 1) (cy + ht) rest")
        case (Inl e')
        then have "e' = ValueError" by (rule Cons.IH)
        then show ?thesis using Cons.prems x ht False Inr Inl by (simp add: segment_loop.simps(2))
      next
        case Inr2: (Inr segs)
        then show ?thesis using Cons.prems x ht False Inr by (simp add: segment_loop.simps(2))
      qed
    qed
  qed
qed

lemma segment_loop_ok:
  assumes "colors_decode tbl" and "sb \<longrightarrow> tp \<noteq> 0" and "\<not> sb \<longrightarrow> n \<noteq> 0"
  shows "\<exists>segs. segment_loop tbl sb tp h n i cy langs = Inr segs"
proof (induction langs arbitrary: i cy)
  case Nil
  then show ?case by simp
next
  case (Cons x rest)
  obtain lang p where x: "x = (lang, p)" by (cases x)
  obtain ht where ht: "segment_height sb tp h n i cy p = Inr ht"
    using segment_height_ok [OF assms(2,3)] by blast
  show ?case
  proof (cases "ht < 1")
    case True
    then show ?thesis using Cons x segment_loop_skipped [OF ht True, of tbl lang rest] by simp
  next
    case False
    then have "1 \<le> ht" by simp
    from segment_loop_drawn [OF assms(1) ht this, of lang rest] Cons.IH [of "i + 1" "cy + ht"]
    show ?thesis using x by auto
  qed
qed

lemma legend_loop_error_kind: "legend_loop tbl i langs = Inl e \<Longrightarrow> e = ValueError"
proof (induction langs arbitrary: i e)
  case Nil
  then show ?case by simp
next
  case (Cons x rest)
  obtain lang p where x: "x = (lang, p)" by (cases x)
  show ?case
  proof (cases "entry_color tbl lang i")
    case (Inl e')
    then have "e' = ValueError" by (rule entry_color_error)
    then show ?thesis using Cons.prems x Inl by simp
  next
    case (Inr c)
    show ?thesis
    proof (cases "legend_loop tbl (i + 1) rest")
      case (Inl e')
      then have "e' = ValueError" by (rule Cons.IH)
      then show ?thesis using Cons.prems x Inr Inl by simp
    next
      case Inr2: (Inr es)
      then show ?thesis using Cons.prems x Inr by simp
    qed
  qed
qed

lemma legend_loop_ok:
  assumes "colors_decode tbl"
  shows "\<exists>entries. legend_loop tbl i langs = Inr entries \<and> length entries = length langs"
proof (induction langs arbitrary: i)
  case Nil
  then show ?case by simp
next
  case (Cons x rest)
  obtain lang p where x: "x = (lang, p)" by (cases x)
  obtain c where c: "entry_color tbl lang i = Inr c"
    using entry_color_decodes [OF assms] by blast
  obtain es where "legend_loop tbl (i + 1) rest = Inr es" "length es = length rest"
    using Cons.IH by blast
  then show ?case using x c by simp
qed

lemma color_in_segment_ok:
  assumes "contiguous_from y segs" and "i < length segs"
    and "seg_start (segs ! i) \<le> row" and "row < seg_end (segs ! i)"
  shows "isl (color_in_segment segs g row i (segs ! i)) = False"
proof -
  have nxt: "seg_start (segs ! (i + 1)) = seg_end (segs ! i)" if "i < length segs - 1"
    using contiguous_from_next [OF assms(1), of i] that by simp
  show ?thesis
  proof (cases "0 < i \<and> row - seg_start (segs ! i) < g")
    case True
    then have "g \<noteq> 0" using assms(3) by auto
    then show ?thesis using True by (simp add: color_in_segment_def py_truediv_def)
  next
    case False
    show ?thesis
    proof (cases "i < length segs - 1 \<and> seg_start (segs ! (i + 1)) - row \<le> g")
      case True
      then have "g \<noteq> 0" using nxt assms(4) by auto
      then show ?thesis using True False by (auto simp add: color_in_segment_def py_truediv_def)
    next
      case False2: False
      then show ?thesis using False by (auto simp add: color_in_segment_def)
    qed
  qed
qed

lemma scan_segments_miss:
  "\<forall>sg \<in> set rest. \<not> (seg_start sg \<le> row \<and> row < seg_end sg) \<Longrightarrow>
     scan_segments segs g row k rest = Inr None"
  by (induction rest arbitrary: k) auto

lemma row_color_ok:
  assumes "contiguous_from y segs"
  shows "isl (row_color sec segs g row) = False"
proof (cases "\<exists>i < length segs. seg_start (segs ! i) \<le> row \<and> row < seg_end (segs ! i)")
  case True
  then obtain i where i: "i < length segs" "seg_start (segs ! i) \<le> row" "row < seg_end (segs ! i)"
    by blast
  from row_color_hit [OF assms i] color_in_segment_ok [OF assms i]
  show ?thesis by simp
next
  case False
  have "\<not> (seg_start sg \<le> row \<and> row < seg_end sg)" if "sg \<in> set segs" for sg
  proof -
    from that obtain i where "i < length segs" "segs ! i = sg" by (auto simp: in_set_conv_nth)
    then show ?thesis using False by blast
  qed
  then have "scan_segments segs g row 0 segs = Inr None" by (simp add: scan_segments_miss)
  then show ?thesis by (simp add: row_color_def)
qed

lemma rows_ok:
  assumes "contiguous_from y segs"
  shows "\<exists>rows. map_result
      (\<lambda>row_y. bind_result (row_color sec segs g row_y) (\<lambda>c. Inr (Row row_y c))) xs = Inr rows"
proof (induction xs)
  case Nil
  then show ?case by simp
next
  case (Cons x xs)
  obtain c where "row_color sec segs g x = Inr c"
    using row_color_ok [OF assms, of sec g x] by (cases "row_color sec segs g x") auto
  then show ?case using Cons by auto
qed

lemma bar_zero_sum:
  assumes "sum_list (map snd (take 5 languages)) = 0"
  shows "draw_vertical_language_bar sc sec tbl h languages sb ug bd = Inr [Background]"
  using assms by (simp add: draw_vertical_language_bar_def Let_def)

lemma bar_error_kind:
  assumes "draw_vertical_language_bar sc sec tbl h languages sb ug bd = Inl e"
  shows "e = ValueError"
proof -
  let ?v = "take 5 languages"
  let ?tp = "sum_list (map snd ?v)"
  let ?n = "int (length ?v)"
  have ne: "?v \<noteq> []" and tp: "?tp \<noteq> 0"
    using assms by (auto simp: draw_vertical_language_bar_def Let_def split: if_splits)
  then have n: "?n \<noteq> 0" by simp
  show ?thesis
  proof (cases "segment_loop tbl sb ?tp h ?n 0 0 ?v")
    case (Inl e')
    then have "e' = ValueError" using segment_loop_error_kind [of sb ?tp ?n] tp n by blast
    then show ?thesis using assms ne tp Inl by (simp add: draw_vertical_language_bar_def Let_def)
  next
    case (Inr segs)
    then have cont: "contiguous_from 0 segs" by (rule segment_loop_contiguous)
    obtain rows where "map_result
        (\<lambda>row_y. bind_result (row_color sec segs (s sc 8) row_y) (\<lambda>c. Inr (Row row_y c)))
        (map int [0..<nat h]) = Inr rows"
      using rows_ok [OF cont] by blast
    then show ?thesis using assms ne tp Inr
      by (simp add: draw_vertical_language_bar_def Let_def split: if_splits)
  qed
qed

lemma bar_ok:
  assumes "colors_decode tbl"
  shows "\<exists>ops. draw_vertical_language_bar sc sec tbl h languages sb ug bd = Inr ops"
proof (cases "draw_vertical_language_bar sc sec tbl h languages sb ug bd")
  case (Inr ops)
  then show ?thesis by blast
next
  case (Inl e)
  let ?v = "take 5 languages"
  let ?tp = "sum_list (map snd ?v)"
  let ?n = "int (length ?v)"
  have ne: "?v \<noteq> []" and tp: "?tp \<noteq> 0"
    using Inl by (auto simp: draw_vertical_language_bar_def Let_def split: if_splits)
  then have n: "?n \<noteq> 0" by simp
  obtain segs where segs: "segment_loop tbl sb ?tp h ?n 0 0 ?v = Inr segs"
    using segment_loop_ok [OF assms, of sb ?tp ?n] tp n by blast
  then have cont: "contiguous_from 0 segs" by (rule segment_loop_contiguous)
  obtain rows where "map_result
      (\<lambda>row_y. bind_result (row_color sec segs (s sc 8) row_y) (\<lambda>c. Inr (Row row_y c)))
      (map int [0..<nat h]) = Inr rows"
    using rows_ok [OF cont] by blast
  then show ?thesis using Inl ne tp segs
    by (simp add: draw_vertical_language_bar_def Let_def split: if_splits)
qed

lemma section_error_kind:
  assumes "draw_stats_section_languages sc sec tbl languages excluded sb ug bd = Inl e"
  shows "e = ValueError"
proof -
  let ?L = "if excluded \<noteq> [] then filter_languages languages excluded else languages"
  have ne: "?L \<noteq> []"
    using assms by (auto simp: draw_stats_section_languages_def Let_def split: if_splits)
  show ?thesis
  proof (cases "draw_vertical_language_bar sc sec tbl (s sc 164) ?L sb ug bd")
    case (Inl e')
    then have "e' = ValueError" by (rule bar_error_kind)
    then show ?thesis using assms ne Inl
      by (simp add: draw_stats_section_languages_def Let_def split: if_splits)
  next
    case (Inr bar)
    show ?thesis
    proof (cases "draw_vertical_language_legend tbl ?L")
      case (Inl e')
      then have "e' = ValueError"
        unfolding draw_vertical_language_legend_def by (rule legend_loop_error_kind)
      then show ?thesis using assms ne Inr Inl
        by (simp add: draw_stats_section_languages_def Let_def split: if_splits)
    next
      case Inr2: (Inr legend)
      then show ?thesis using assms ne Inr
        by (simp add: draw_stats_section_languages_def Let_def split: if_splits)
    qed
  qed
qed

lemma section_ok:
  assumes "colors_decode tbl"
  shows "\<exists>ops. draw_stats_section_languages sc sec tbl languages excluded sb ug bd = Inr ops"
proof -
  let ?L = "if excluded \<noteq> [] then filter_languages languages excluded else languages"
  obtain bar where bar: "draw_vertical_language_bar sc sec tbl (s sc 164) ?L sb ug bd = Inr bar"
    using bar_ok [OF assms] by blast
  obtain legend where legend: "draw_vertical_language_legend tbl ?L = Inr legend"
    using legend_loop_ok [OF assms] unfolding draw_vertical_language_legend_def by blast
  show ?thesis
    using bar legend by (simp add: draw_stats_section_languages_def Let_def)
qed

lemma section_zero_sum:
  assumes "L = (if excluded \<noteq> [] then filter_languages languages excluded else languages)"
    and "L \<noteq> []" and "sum_list (map snd (take 5 L)) = 0" and "colors_decode tbl"
  shows "\<exists>legend. draw_stats_section_languages sc sec tbl languages excluded sb ug bd =
            Inr ([Label, Background] @ legend) \<and> length legend = length (take 5 L)"
proof -
  have bar: "draw_vertical_language_bar sc sec tbl (s sc 164) L sb ug bd = Inr [Background]"
    using assms(3) by (rule bar_zero_sum)
  obtain legend where legend: "draw_vertical_language_legend tbl L = Inr legend"
    "length legend = length (take 5 L)"
    using legend_loop_ok [OF assms(4)] unfolding draw_vertical_language_legend_def by blast
  have "draw_stats_section_languages sc sec tbl languages excluded sb ug bd =
      Inr ([Label, Background] @ legend)"
    using bar legend(1) assms(2) unfolding draw_stats_section_languages_def Let_def assms(1) [symmetric]
    by simp
  then show ?thesis using legend(2) by blast
qed

text \<open>
  C8, amended.  When no language is left after the exclusion filter, the label, the bar
  and the legend are all skipped and nothing is raised.  When the percentages of the
  visible languages add up to zero, the bar function draws the bar's background and
  nothing else: no segment is computed, so nothing is divided by the zero sum; the label
  and the legend are drawn as usual.  The language part never raises a division by zero,
  and it raises nothing at all when every colour of the table converts.
\<close>

theorem zero_languages_skip_section:
  "((if excluded \<noteq> [] then filter_languages languages excluded else languages) = [] \<longrightarrow>
      draw_stats_section_languages sc sec tbl languages excluded sb ug bd = Inr []) \<and>
   (sum_list (map snd (take 5 languages)) = 0 \<longrightarrow>
      draw_vertical_language_bar sc sec tbl h languages sb ug bd = Inr [Background]) \<and>
   (L = (if excluded \<noteq> [] then filter_languages languages excluded else languages) \<and>
    L \<noteq> [] \<and> sum_list (map snd (take 5 L)) = 0 \<and> colors_decode tbl \<longrightarrow>
      (\<exists>legend. draw_stats_section_languages sc sec tbl languages excluded sb ug bd =
            Inr ([Label, Background] @ legend) \<and> length legend = length (take 5 L))) \<and>
   draw_vertical_language_bar sc sec tbl h languages sb ug bd \<noteq> Inl ZeroDivisionError \<and>
   draw_stats_section_languages sc sec tbl languages excluded sb ug bd \<noteq> Inl ZeroDivisionError \<and>
   (colors_decode tbl \<longrightarrow>
      (\<exists>ops. draw_stats_section_languages sc sec tbl languages excluded sb ug bd = Inr ops))"
proof (intro conjI impI)
  assume "(if excluded \<noteq> [] then filter_languages languages excluded else languages) = []"
  then show "draw_stats_section_languages sc sec tbl languages excluded sb ug bd = Inr []"
    by (simp add: draw_stats_section_languages_def Let_def)
next
  assume "sum_list (map snd (take 5 languages)) = 0"
  then show "draw_vertical_language_bar sc sec tbl h languages sb ug bd = Inr [Background]"
    by (rule bar_zero_sum)
next
  assume "L = (if excluded \<noteq> [] then filter_languages languages excluded else languages) \<and>
    L \<noteq> [] \<and> sum_list (map snd (take 5 L)) = 0 \<and> colors_decode tbl"
  then show "\<exists>legend. draw_stats_section_languages sc sec tbl languages excluded sb ug bd =
            Inr ([Label, Background] @ legend) \<and> length legend = length (take 5 L)"
    using section_zero_sum by blast
next
  show "draw_vertical_language_bar sc sec tbl h languages sb ug bd \<noteq> Inl ZeroDivisionError"
    using bar_error_kind [of sc sec tbl h languages sb ug bd ZeroDivisionError] by auto
next
  show "draw_stats_section_languages sc sec tbl languages excluded sb ug bd \<noteq> Inl ZeroDivisionError"
    using section_error_kind [of sc sec tbl languages excluded sb ug bd ZeroDivisionError] by auto
next
  assume "colors_decode tbl"
  then show "\<exists>ops. draw_stats_section_languages sc sec tbl languages excluded sb ug bd = Inr ops"
    by (rule section_ok)
qed

theorem zero_languages_skip_section_witness:
  "draw_stats_section_languages 2 (86, 95, 137, 255) [] [(''Python'', 60)] [''python'']
      True True False = Inr [] \<and>
   draw_vertical_language_bar 2 (86, 95, 137, 255) [] 328 [(''Python'', 0)] True True False =
      Inr [Background] \<and>
   (\<exists>legend. draw_stats_section_languages 2 (86, 95, 137, 255) [] [(''Python'', 0)] []
        True True False = Inr ([Label, Background] @ legend) \<and>
      length legend = length (take 5 [(''Python'', 0 :: real)])) \<and>
   (\<exists>ops. draw_stats_section_languages 2 (86, 95, 137, 255) [] [(''Python'', 0)] []
        True True False = Inr ops)"
proof -
  have h1: "(if [''python''] \<noteq> [] then filter_languages [(''Python'', 60)] [''python'']
             else [(''Python'', 60)]) = []"
    by code_simp
  have h2: "sum_list (map snd (take 5 [(''Python'', 0 :: real)])) = 0"
    by simp
  have h3: "[(''Python'', 0 :: real)] =
        (if ([] :: string list) \<noteq> [] then filter_languages [(''Python'', 0)] [] else [(''Python'', 0)]) \<and>
      [(''Python'', 0 :: real)] \<noteq> [] \<and>
      sum_list (map snd (take 5 [(''Python'', 0 :: real)])) = 0 \<and> colors_decode []"
    by (simp add: colors_decode_def)
  have h4: "colors_decode []" by (simp add: colors_decode_def)
  note a = zero_languages_skip_section [where languages = "[(''Python'', 60)]"
      and excluded = "[''python'']" and sc = 2 and sec = "(86, 95, 137, 255)" and tbl = "[]"
      and sb = True and ug = True and bd = False]
  note b = zero_languages_skip_section [where languages = "[(''Python'', 0)]"
      and excluded = "[]" and sc = 2 and sec = "(86, 95, 137, 255)" and tbl = "[]"
      and sb = True and ug = True and bd = False and h = 328 and L = "[(''Python'', 0)]"]
  have c1: "draw_stats_section_languages 2 (86, 95, 137, 255) [] [(''Python'', 60)] [''python'']
      True True False = Inr []"
    using a [THEN conjunct1] h1 by (rule mp)
  have c2: "draw_vertical_language_bar 2 (86, 95, 137, 255) [] 328 [(''Python'', 0)] True True False =
      Inr [Background]"
    using b [THEN conjunct2, THEN conjunct1] h2 by (rule mp)
  have c3: "\<exists>legend. draw_stats_section_languages 2 (86, 95, 137, 255) [] [(''Python'', 0)] []
        True True False = Inr ([Label, Background] @ legend) \<and>
      length legend = length (take 5 [(''Python'', 0 :: real)])"
    using b [THEN conjunct2, THEN conjunct2, THEN conjunct1] h3 by (rule mp)
  have c4: "\<exists>ops. draw_stats_section_languages 2 (86, 95, 137, 255) [] [(''Python'', 0)] []
        True True False = Inr ops"
    using b [THEN conjunct2, THEN conjunct2, THEN conjunct2, THEN conjunct2, THEN conjunct2] h4
    by (rule mp)
  show ?thesis using c1 c2 c3 c4 by (intro conjI)
qed

text \<open>
  With a zero sum the bar is not skipped altogether: its background is drawn, between the
  label and the legend.
\<close>

theorem zero_sum_background_counterexample:
  "draw_vertical_language_bar 2 (86, 95, 137, 255) [] 328 [(''Python'', 0)] True True False =
      Inr [Background] \<and>
   draw_stats_section_languages 2 (86, 95, 137, 255) [] [(''Python'', 0)] [] True True False =
      Inr [Label, Background, Legend ''Python'' 0 (224, 108, 117, 255)]"
  by code_simp

section \<open>Properties of auto-fit\<close>

lemma foldl_add_sum:
  "foldl (\<lambda>a x. a + f x) (t0 :: int) xs = t0 + sum_list (map f xs)"
  by (induction xs arbitrary: t0) simp_all

lemma blurb_height_loop_sum:
  "int (length rest) + idx = len \<Longrightarrow>
   blurb_height_loop bbox max_w line_gap para_gap len idx t0 rest =
     t0 +
     sum_list (map (\<lambda>para.
        sum_list (map (\<lambda>line. text_height bbox line + line_gap) (wrap_text_balanced bbox para max_w)) -
        (if wrap_text_balanced bbox para max_w \<noteq> [] then line_gap else 0)) rest) +
     para_gap * (if rest = [] then 0 else int (length rest) - 1)"
proof (induction rest arbitrary: idx t0)
  case Nil
  then show ?case by simp
next
  case (Cons para rest)
  have len: "int (length rest) + (idx + 1) = len" using Cons.prems by simp
  have last: "idx < len - 1 \<longleftrightarrow> rest \<noteq> []" using Cons.prems by auto
  show ?case
    unfolding blurb_height_loop.simps Let_def Cons.IH [OF len] foldl_add_sum last
    by (simp add: algebra_simps)
qed

lemma first_fitting_size_Some:
  "sorted_wrt (>) sizes \<Longrightarrow>
   first_fitting_size sc load_font textbbox blurb max_w max_h sizes = Some b \<Longrightarrow>
   b \<in> set sizes \<and> blurb_height_at sc load_font textbbox blurb max_w b \<le> max_h \<and>
   (\<forall>c \<in> set sizes. b < c \<longrightarrow> max_h < blurb_height_at sc load_font textbbox blurb max_w c)"
proof (induction sizes)
  case Nil
  then show ?case by simp
next
  case (Cons a sizes)
  show ?case
  proof (cases "blurb_height_at sc load_font textbbox blurb max_w a \<le> max_h")
    case True
    then have "b = a" using Cons.prems(2) by simp
    then show ?thesis using True Cons.prems(1) by auto
  next
    case False
    then have "first_fitting_size sc load_font textbbox blurb max_w max_h sizes = Some b"
      using Cons.prems(2) by simp
    moreover have "sorted_wrt (>) sizes" using Cons.prems(1) by simp
    ultimately have ih: "b \<in> set sizes" "blurb_height_at sc load_font textbbox blurb max_w b \<le> max_h"
      "\<forall>c \<in> set sizes. b < c \<longrightarrow> max_h < blurb_height_at sc load_font textbbox blurb max_w c"
      using Cons.IH by blast+
    then show ?thesis using False by auto
  qed
qed

lemma first_fitting_size_None:
  "first_fitting_size sc load_font textbbox blurb max_w max_h sizes = None \<longleftrightarrow>
   (\<forall>c \<in> set sizes. max_h < blurb_height_at sc load_font textbbox blurb max_w c)"
  by (induction sizes) (auto simp: Let_def)

lemma candidate_sizes: "sorted_wrt (>) (rev [min_size..max_size])"
  "set (rev [min_size..max_size]) = {c. min_size \<le> c \<and> c \<le> max_size}"
  by (auto simp: sorted_wrt_rev strict_sorted_iff)

text \<open>
  C7.  Auto-fit scans the base sizes from 24 down to 10 and returns the font of the first
  one whose block height is at most the box height, so of the largest size that fits;
  when some size fits, the size selected fits and every larger candidate overflows; when
  none fits, the smallest size 10 is selected.  The block height of a size is the sum,
  over the paragraphs, of the heights of the wrapped lines plus one line gap each, less
  one line gap for a paragraph that has lines, plus one paragraph gap between consecutive
  paragraphs.
\<close>

theorem auto_fit_largest_fitting_size:
  "find_optimal_blurb_font_size sc load_font textbbox blurb max_w max_h =
     load_font (s sc (real_of_int (optimal_blurb_base_size sc load_font textbbox blurb max_w max_h))) \<and>
   min_size \<le> optimal_blurb_base_size sc load_font textbbox blurb max_w max_h \<and>
   optimal_blurb_base_size sc load_font textbbox blurb max_w max_h \<le> max_size \<and>
   min_size = 10 \<and> max_size = 24 \<and>
   ((\<exists>c. min_size \<le> c \<and> c \<le> max_size \<and>
         blurb_height_at sc load_font textbbox blurb max_w c \<le> max_h) \<longrightarrow>
      blurb_height_at sc load_font textbbox blurb max_w
        (optimal_blurb_base_size sc load_font textbbox blurb max_w max_h) \<le> max_h \<and>
      (\<forall>c. optimal_blurb_base_size sc load_font textbbox blurb max_w max_h < c \<and> c \<le> max_size \<longrightarrow>
         max_h < blurb_height_at sc load_font textbbox blurb max_w c)) \<and>
   ((\<forall>c. min_size \<le> c \<and> c \<le> max_size \<longrightarrow>
         max_h < blurb_height_at sc load_font textbbox blurb max_w c) \<longrightarrow>
      optimal_blurb_base_size sc load_font textbbox blurb max_w max_h = min_size) \<and>
   blurb_height_at sc load_font textbbox blurb max_w c =
     sum_list (map (\<lambda>para.
        sum_list (map (\<lambda>line. text_height (textbbox (load_font (s sc (real_of_int c)))) line + s sc 4)
                    (wrap_text_balanced (textbbox (load_font (s sc (real_of_int c)))) para max_w)) -
        (if wrap_text_balanced (textbbox (load_font (s sc (real_of_int c)))) para max_w \<noteq> []
         then s sc 4 else 0)) blurb) +
     s sc 8 * (if blurb = [] then 0 else int (length blurb) - 1)"
proof -
  let ?b = "optimal_blurb_base_size sc load_font textbbox blurb max_w max_h"
  let ?H = "blurb_height_at sc load_font textbbox blurb max_w"
  let ?f = "first_fitting_size sc load_font textbbox blurb max_w max_h (rev [min_size..max_size])"
  have mm: "min_size \<le> max_size" by (simp add: min_size_def max_size_def)
  have some: "c \<in> set (rev [min_size..max_size]) \<and> ?H c \<le> max_h \<and>
      (\<forall>d \<in> set (rev [min_size..max_size]). c < d \<longrightarrow> max_h < ?H d)" if "?f = Some c" for c
    using first_fitting_size_Some [OF candidate_sizes(1) that] .
  have range: "min_size \<le> ?b \<and> ?b \<le> max_size"
  proof (cases ?f)
    case None
    then show ?thesis using mm by (simp add: optimal_blurb_base_size_def)
  next
    case (Some c)
    then show ?thesis using some [OF Some] by (simp add: optimal_blurb_base_size_def)
  qed
  have fits: "?H ?b \<le> max_h \<and> (\<forall>c. ?b < c \<and> c \<le> max_size \<longrightarrow> max_h < ?H c)"
    if ex: "\<exists>c. min_size \<le> c \<and> c \<le> max_size \<and> ?H c \<le> max_h"
  proof (cases ?f)
    case None
    then have all: "\<forall>c \<in> set (rev [min_size..max_size]). max_h < ?H c"
      by (simp only: first_fitting_size_None)
    from ex obtain c where c: "min_size \<le> c" "c \<le> max_size" "?H c \<le> max_h" by blast
    then have "c \<in> set (rev [min_size..max_size])" by simp
    then have "max_h < ?H c" using all by blast
    then show ?thesis using c(3) by simp
  next
    case (Some c)
    have b: "?b = c" using Some by (simp add: optimal_blurb_base_size_def)
    from some [OF Some] range show ?thesis unfolding b by auto
  qed
  have none: "?b = min_size" if all: "\<forall>c. min_size \<le> c \<and> c \<le> max_size \<longrightarrow> max_h < ?H c"
  proof -
    have "\<forall>c \<in> set (rev [min_size..max_size]). max_h < ?H c" using all by simp
    then have "?f = None" by (simp only: first_fitting_size_None)
    then show ?thesis by (simp add: optimal_blurb_base_size_def)
  qed
  have closed: "?H c =
     sum_list (map (\<lambda>para.
        sum_list (map (\<lambda>line. text_height (textbbox (load_font (s sc (real_of_int c)))) line + s sc 4)
                    (wrap_text_balanced (textbbox (load_font (s sc (real_of_int c)))) para max_w)) -
        (if wrap_text_balanced (textbbox (load_font (s sc (real_of_int c)))) para max_w \<noteq> []
         then s sc 4 else 0)) blurb) +
     s sc 8 * (if blurb = [] then 0 else int (length blurb) - 1)"
    unfolding blurb_height_at_def Let_def calculate_blurb_height_def
    by (subst blurb_height_loop_sum) simp_all
  show ?thesis
    using range fits none closed
    by (simp add: find_optimal_blurb_font_size_def min_size_def max_size_def)
qed

theorem auto_fit_largest_fitting_size_witness:
  "optimal_blurb_base_size 1 (\<lambda>size. size)
      (\<lambda>font t. (0, 0, font * int (length t) div 2, font)) [''hello world'', ''hi''] 160 50 = 21 \<and>
   blurb_height_at 1 (\<lambda>size. size)
      (\<lambda>font t. (0, 0, font * int (length t) div 2, font)) [''hello world'', ''hi''] 160 21 \<le> 50 \<and>
   50 < blurb_height_at 1 (\<lambda>size. size)
      (\<lambda>font t. (0, 0, font * int (length t) div 2, font)) [''hello world'', ''hi''] 160 22 \<and>
   optimal_blurb_base_size 1 (\<lambda>size. size)
      (\<lambda>font t. (0, 0, font * int (length t) div 2, font)) [''hello world'', ''hi''] 160 5 = 10"
proof -
  let ?LF = "\<lambda>size :: int. size"
  let ?TB = "\<lambda>(font :: int) (t :: string). (0 :: int, 0 :: int, font * int (length t) div 2, font)"
  let ?B = "[''hello world'', ''hi'']"
  have size: "optimal_blurb_base_size 1 ?LF ?TB ?B 160 50 = 21"
    by code_simp
  have fit10: "min_size \<le> 10 \<and> 10 \<le> max_size \<and> blurb_height_at 1 ?LF ?TB ?B 160 10 \<le> 50"
    by code_simp
  then have ex: "\<exists>c. min_size \<le> c \<and> c \<le> max_size \<and> blurb_height_at 1 ?LF ?TB ?B 160 c \<le> 50"
    by (rule exI)
  have "list_all (\<lambda>c. 5 < blurb_height_at 1 ?LF ?TB ?B 160 c) [10..24]"
    by code_simp
  then have all: "\<forall>c \<in> set [10..24]. 5 < blurb_height_at 1 ?LF ?TB ?B 160 c"
    by (simp only: list_all_iff)
  have mem: "c \<in> set [10..24]" if "10 \<le> c \<and> c \<le> 24" for c :: int
    using that by (simp only: set_upto atLeastAtMost_iff)
  have none: "\<forall>c. min_size \<le> c \<and> c \<le> max_size \<longrightarrow> 5 < blurb_height_at 1 ?LF ?TB ?B 160 c"
    unfolding min_size_def max_size_def using all mem by blast
  note a = auto_fit_largest_fitting_size [where sc = 1 and load_font = ?LF and textbbox = ?TB
      and blurb = ?B and max_w = 160 and max_h = 50]
  note b = auto_fit_largest_fitting_size [where sc = 1 and load_font = ?LF and textbbox = ?TB
      and blurb = ?B and max_w = 160 and max_h = 5]
  have a6: "blurb_height_at 1 ?LF ?TB ?B 160 (optimal_blurb_base_size 1 ?LF ?TB ?B 160 50) \<le> 50 \<and>
      (\<forall>c. optimal_blurb_base_size 1 ?LF ?TB ?B 160 50 < c \<and> c \<le> max_size \<longrightarrow>
         50 < blurb_height_at 1 ?LF ?TB ?B 160 c)"
    using a [THEN conjunct2, THEN conjunct2, THEN conjunct2, THEN conjunct2, THEN conjunct2,
        THEN conjunct1] ex by (rule mp)
  have c2: "blurb_height_at 1 ?LF ?TB ?B 160 21 \<le> 50"
    using a6 [THEN conjunct1] unfolding size .
  have c3: "50 < blurb_height_at 1 ?LF ?TB ?B 160 22"
    using a6 [THEN conjunct2] unfolding size by (simp add: max_size_def)
  have c4: "optimal_blurb_base_size 1 ?LF ?TB ?B 160 5 = 10"
    using b [THEN conjunct2, THEN conjunct2, THEN conjunct2, THEN conjunct2, THEN conjunct2,
        THEN conjunct2, THEN conjunct1] none
    by (simp add: min_size_def)
  show ?thesis using size c2 c3 c4 by (intro conjI)
qed

section \<open>Properties of the greedy wrap\<close>

lemma is_space_blank [simp]: "is_space (CHR '' '')"
  by (simp add: is_space_def)

lemma split_acc_no_space:
  "\<forall>c \<in> set w. \<not> is_space c \<Longrightarrow> split_acc cur (w @ rest) = split_acc (cur @ w) rest"
  by (induction w arbitrary: cur) simp_all

lemma split_acc_words:
  "\<forall>c \<in> set cur. \<not> is_space c \<Longrightarrow> v \<in> set (split_acc cur t) \<Longrightarrow>
     v \<noteq> [] \<and> (\<forall>c \<in> set v. \<not> is_space c)"
proof (induction t arbitrary: cur)
  case Nil
  then show ?case by (auto split: if_splits)
next
  case (Cons c t)
  show ?case
  proof (cases "is_space c")
    case True
    have "v = cur \<and> cur \<noteq> [] \<or> v \<in> set (split_acc [] t)"
      using Cons.prems(2) True by (auto split: if_splits)
    then show ?thesis using Cons.prems(1) Cons.IH [of "[]"] by auto
  next
    case False
    then have "v \<in> set (split_acc (cur @ [c]) t)" using Cons.prems(2) by simp
    moreover have "\<forall>d \<in> set (cur @ [c]). \<not> is_space d" using Cons.prems(1) False by simp
    ultimately show ?thesis using Cons.IH by blast
  qed
qed

lemma py_split_words:
  "v \<in> set (py_split t) \<Longrightarrow> v \<noteq> [] \<and> (\<forall>c \<in> set v. \<not> is_space c)"
  unfolding py_split_def using split_acc_words [of "[]" v t] by simp

lemma split_acc_trailing:
  "\<forall>c \<in> set sp. is_space c \<Longrightarrow> split_acc cur (t @ sp) = split_acc cur t"
proof (induction t arbitrary: cur)
  case Nil
  then show ?case
  proof (induction sp arbitrary: cur)
    case Nil
    then show ?case by simp
  next
    case (Cons c sp)
    then have "split_acc [] ([] @ sp) = split_acc [] []" by simp
    then show ?case using Cons.prems by simp
  qed
next
  case (Cons c t)
  then show ?case by simp
qed

lemma split_acc_leading: "split_acc [] (dropWhile is_space t) = split_acc [] t"
  by (induction t) simp_all

lemma py_split_strip: "py_split (strip t) = py_split t"
proof -
  let ?u = "dropWhile is_space t"
  have "rev (dropWhile is_space (rev ?u)) @ rev (takeWhile is_space (rev ?u)) = ?u"
    by (metis rev_append rev_rev_ident takeWhile_dropWhile_id)
  moreover have "\<forall>c \<in> set (rev (takeWhile is_space (rev ?u))). is_space c"
    by (auto dest: set_takeWhileD)
  ultimately have "split_acc [] (rev (dropWhile is_space (rev ?u))) = split_acc [] ?u"
    using split_acc_trailing [of "rev (takeWhile is_space (rev ?u))" "[]"
        "rev (dropWhile is_space (rev ?u))"] by simp
  then show ?thesis by (simp add: py_split_def strip_def split_acc_leading)
qed

lemma py_split_join:
  "\<forall>w \<in> set ws. w \<noteq> [] \<and> (\<forall>c \<in> set w. \<not> is_space c) \<Longrightarrow> py_split (join_sp ws) = ws"
proof (induction ws rule: join_sp.induct)
  case 1
  then show ?case by (simp add: py_split_def)
next
  case (2 w)
  then have "split_acc [] (w @ []) = split_acc ([] @ w) []"
    by (intro split_acc_no_space) simp
  then show ?case using 2 by (simp add: py_split_def)
next
  case (3 w v ws)
  have "split_acc [] (w @ (CHR '' '' # join_sp (v # ws))) = split_acc ([] @ w) (CHR '' '' # join_sp (v # ws))"
    using 3(2) by (intro split_acc_no_space) simp
  then show ?case using 3 by (simp add: py_split_def)
qed

lemma join_sp_eq_Nil:
  "\<forall>w \<in> set ws. w \<noteq> [] \<Longrightarrow> join_sp ws = [] \<longleftrightarrow> ws = []"
  by (induction ws rule: join_sp.induct) simp_all

lemma join_sp_append:
  "a \<noteq> [] \<Longrightarrow> b \<noteq> [] \<Longrightarrow> join_sp (a @ b) = join_sp a @ '' '' @ join_sp b"
proof (induction a rule: join_sp.induct)
  case 1
  then show ?case by simp
next
  case (2 w)
  then show ?case by (cases b) simp_all
next
  case (3 w v ws)
  then show ?case by simp
qed

lemma join_sp_hd:
  "ws \<noteq> [] \<Longrightarrow> \<forall>w \<in> set ws. w \<noteq> [] \<Longrightarrow> hd (join_sp ws) = hd (hd ws)"
  by (induction ws rule: join_sp.induct) simp_all

lemma join_sp_last:
  "ws \<noteq> [] \<Longrightarrow> \<forall>w \<in> set ws. w \<noteq> [] \<Longrightarrow> last (join_sp ws) = last (last ws)"
proof (induction ws rule: join_sp.induct)
  case 1
  then show ?case by simp
next
  case (2 w)
  then show ?case by simp
next
  case (3 w v ws)
  have "join_sp (v # ws) \<noteq> []" using 3(3) join_sp_eq_Nil [of "v # ws"] by simp
  then show ?case using 3 by simp
qed

lemma strip_id:
  "t \<noteq> [] \<Longrightarrow> \<not> is_space (hd t) \<Longrightarrow> \<not> is_space (last t) \<Longrightarrow> strip t = t"
proof -
  assume t: "t \<noteq> []" and h: "\<not> is_space (hd t)" and l: "\<not> is_space (last t)"
  have "dropWhile is_space t = t" using t h by (cases t) simp_all
  moreover have "dropWhile is_space (rev t) = rev t"
    using t l by (cases "rev t") (simp_all add: last_rev [symmetric] hd_rev)
  ultimately show ?thesis by (simp add: strip_def)
qed

lemma strip_join:
  assumes "ws \<noteq> []" and "\<forall>w \<in> set ws. w \<noteq> [] \<and> (\<forall>c \<in> set w. \<not> is_space c)"
  shows "strip (join_sp ws) = join_sp ws"
proof -
  have ne: "\<forall>w \<in> set ws. w \<noteq> []" using assms(2) by blast
  have "hd ws \<in> set ws" "last ws \<in> set ws" using assms(1) by simp_all
  then have "\<not> is_space (hd (hd ws))" "\<not> is_space (last (last ws))"
    using assms(2) by (metis hd_in_set, metis last_in_set)
  then have "\<not> is_space (hd (join_sp ws))" "\<not> is_space (last (join_sp ws))"
    using join_sp_hd [OF assms(1) ne] join_sp_last [OF assms(1) ne] by simp_all
  moreover have "join_sp ws \<noteq> []" using join_sp_eq_Nil [OF ne] assms(1) by simp
  ultimately show ?thesis by (intro strip_id)
qed

lemma candidate_join:
  assumes "\<forall>w \<in> set cw. w \<noteq> [] \<and> (\<forall>c \<in> set w. \<not> is_space c)"
    and "w \<noteq> [] \<and> (\<forall>c \<in> set w. \<not> is_space c)"
  shows "strip (join_sp cw @ '' '' @ w) = join_sp (cw @ [w])"
proof (cases "cw = []")
  case True
  have "dropWhile is_space (CHR '' '' # w) = w" using assms(2) by (cases w) simp_all
  moreover have "strip w = w" using strip_join [of "[w]"] assms(2) by simp
  ultimately show ?thesis using True by (simp add: strip_def)
next
  case False
  have "join_sp cw @ '' '' @ w = join_sp (cw @ [w])"
    using join_sp_append [OF False, of "[w]"] by simp
  moreover have "strip (join_sp (cw @ [w])) = join_sp (cw @ [w])"
    using assms by (intro strip_join) auto
  ultimately show ?thesis by simp
qed

lemma greedy_loop_groups:
  assumes "\<forall>w \<in> set ws. w \<noteq> [] \<and> (\<forall>c \<in> set w. \<not> is_space c)"
    and "\<forall>w \<in> set cw. w \<noteq> [] \<and> (\<forall>c \<in> set w. \<not> is_space c)"
    and "cw = [] \<or> text_width bbox (join_sp cw) \<le> mw \<or> length cw = 1"
  shows "\<exists>groups. greedy_loop bbox mw ws lines (join_sp cw) = lines @ map join_sp groups \<and>
      concat groups = cw @ ws \<and>
      (\<forall>g \<in> set groups. g \<noteq> [] \<and> (text_width bbox (join_sp g) \<le> mw \<or> length g = 1))"
  using assms
proof (induction ws arbitrary: lines cw)
  case Nil
  have ne: "\<forall>w \<in> set cw. w \<noteq> []" using Nil.prems(2) by blast
  show ?case
  proof (cases "cw = []")
    case True
    then show ?thesis by (intro exI [of _ "[]"]) simp
  next
    case False
    then have "join_sp cw \<noteq> []" using join_sp_eq_Nil [OF ne] by simp
    then show ?thesis using False Nil.prems(3) by (intro exI [of _ "[cw]"]) simp
  qed
next
  case (Cons w ws)
  have w: "w \<noteq> [] \<and> (\<forall>c \<in> set w. \<not> is_space c)" using Cons.prems(1) by simp
  have ws: "\<forall>w \<in> set ws. w \<noteq> [] \<and> (\<forall>c \<in> set w. \<not> is_space c)" using Cons.prems(1) by simp
  have ne: "\<forall>w \<in> set cw. w \<noteq> []" using Cons.prems(2) by blast
  have cand: "strip (join_sp cw @ '' '' @ w) = join_sp (cw @ [w])"
    using Cons.prems(2) w by (rule candidate_join)
  show ?case
  proof (cases "text_width bbox (join_sp (cw @ [w])) \<le> mw")
    case True
    have step: "greedy_loop bbox mw (w # ws) lines (join_sp cw) =
        greedy_loop bbox mw ws lines (join_sp (cw @ [w]))"
      using True cand by (simp add: Let_def)
    have "\<forall>v \<in> set (cw @ [w]). v \<noteq> [] \<and> (\<forall>c \<in> set v. \<not> is_space c)"
      using Cons.prems(2) w by auto
    from Cons.IH [OF ws this, of lines] True
    obtain groups where "greedy_loop bbox mw ws lines (join_sp (cw @ [w])) = lines @ map join_sp groups"
      "concat groups = (cw @ [w]) @ ws"
      "\<forall>g \<in> set groups. g \<noteq> [] \<and> (text_width bbox (join_sp g) \<le> mw \<or> length g = 1)"
      by blast
    then show ?thesis using step by (intro exI [of _ groups]) simp
  next
    case False
    show ?thesis
    proof (cases "cw = []")
      case True
      have step: "greedy_loop bbox mw (w # ws) lines (join_sp cw) =
          greedy_loop bbox mw ws (lines @ [w]) (join_sp [])"
        using False cand True by (simp add: Let_def)
      from Cons.IH [OF ws, of "[]" "lines @ [w]"]
      obtain groups where "greedy_loop bbox mw ws (lines @ [w]) (join_sp []) =
          (lines @ [w]) @ map join_sp groups"
        "concat groups = [] @ ws"
        "\<forall>g \<in> set groups. g \<noteq> [] \<and> (text_width bbox (join_sp g) \<le> mw \<or> length g = 1)"
        by auto
      then show ?thesis using step True by (intro exI [of _ "[w] # groups"]) simp
    next
      case cw: False
      then have jn: "join_sp cw \<noteq> []" using join_sp_eq_Nil [OF ne] by simp
      have step: "greedy_loop bbox mw (w # ws) lines (join_sp cw) =
          greedy_loop bbox mw ws (lines @ [join_sp cw]) (join_sp [w])"
        using False cand jn by (simp add: Let_def)
      have "\<forall>v \<in> set [w]. v \<noteq> [] \<and> (\<forall>c \<in> set v. \<not> is_space c)" using w by simp
      from Cons.IH [OF ws this, of "lines @ [join_sp cw]"]
      obtain groups where "greedy_loop bbox mw ws (lines @ [join_sp cw]) (join_sp [w]) =
          (lines @ [join_sp cw]) @ map join_sp groups"
        "concat groups = [w] @ ws"
        "\<forall>g \<in> set groups. g \<noteq> [] \<and> (text_width bbox (join_sp g) \<le> mw \<or> length g = 1)"
        by auto
      then show ?thesis using step cw Cons.prems(3)
        by (intro exI [of _ "cw # groups"]) simp
    qed
  qed
qed

lemma join_sp_concat:
  "\<forall>g \<in> set groups. g \<noteq> [] \<and> (\<forall>w \<in> set g. w \<noteq> []) \<Longrightarrow>
     join_sp (map join_sp groups) = join_sp (concat groups)"
proof (induction groups)
  case Nil
  then show ?case by simp
next
  case (Cons g groups)
  show ?case
  proof (cases "groups = []")
    case True
    then show ?thesis by simp
  next
    case False
    then obtain g' gs where gs: "groups = g' # gs" by (cases groups) auto
    have g: "g \<noteq> []" using Cons.prems by simp
    have "concat groups \<noteq> []" using gs Cons.prems by simp
    then have "join_sp (concat (g # groups)) = join_sp g @ '' '' @ join_sp (concat groups)"
      using join_sp_append [OF g] by simp
    moreover have "join_sp (map join_sp (g # groups)) =
        join_sp g @ '' '' @ join_sp (map join_sp groups)"
      using gs by simp
    ultimately show ?thesis using Cons by simp
  qed
qed

lemma wrap_text_to_width_groups:
  "\<exists>groups. wrap_text_to_width bbox t mw = map join_sp groups \<and>
      concat groups = py_split t \<and>
      (\<forall>g \<in> set groups. g \<noteq> [] \<and> (text_width bbox (join_sp g) \<le> mw \<or> length g = 1))"
proof (cases "strip t = []")
  case True
  then have "py_split t = []" using py_split_strip [of t] by (simp add: py_split_def)
  then show ?thesis using True by (intro exI [of _ "[]"]) (simp add: wrap_text_to_width_def)
next
  case False
  have words: "\<forall>w \<in> set (py_split (strip t)). w \<noteq> [] \<and> (\<forall>c \<in> set w. \<not> is_space c)"
    using py_split_words by blast
  from greedy_loop_groups [OF words, of "[]" bbox mw "[]"]
  obtain groups where "greedy_loop bbox mw (py_split (strip t)) [] (join_sp []) = [] @ map join_sp groups"
    "concat groups = [] @ py_split (strip t)"
    "\<forall>g \<in> set groups. g \<noteq> [] \<and> (text_width bbox (join_sp g) \<le> mw \<or> length g = 1)"
    by auto
  then show ?thesis using False
    by (intro exI [of _ groups]) (simp add: wrap_text_to_width_def py_split_strip)
qed

text \<open>
  C6.  Greedy wrap, for any text, any measure of the font and any maximal width: the
  lines joined with single spaces and split again at whitespace give the words of the
  text, and so do the words of the lines one after the other, so that no word is broken
  or lost; and every line is not empty and either fits the maximal width or is a single
  word that is itself wider than it.
\<close>

theorem greedy_wrap_correct:
  "py_split (join_sp (wrap_text_to_width bbox t mw)) = py_split t \<and>
   concat (map py_split (wrap_text_to_width bbox t mw)) = py_split t \<and>
   (\<forall>line \<in> set (wrap_text_to_width bbox t mw).
      line \<noteq> [] \<and>
      (text_width bbox line \<le> mw \<or> (py_split line = [line] \<and> mw < text_width bbox line)))"
proof -
  obtain groups where lines: "wrap_text_to_width bbox t mw = map join_sp groups"
    and cat: "concat groups = py_split t"
    and fit: "\<forall>g \<in> set groups. g \<noteq> [] \<and> (text_width bbox (join_sp g) \<le> mw \<or> length g = 1)"
    using wrap_text_to_width_groups by blast
  have words: "w \<noteq> [] \<and> (\<forall>c \<in> set w. \<not> is_space c)" if "g \<in> set groups" "w \<in> set g" for g w
  proof -
    have "w \<in> set (concat groups)" using that by auto
    then show ?thesis unfolding cat by (rule py_split_words)
  qed
  have sj: "py_split (join_sp g) = g" if "g \<in> set groups" for g
    using words [OF that] by (intro py_split_join) blast
  have "join_sp (map join_sp groups) = join_sp (concat groups)"
    using fit words by (intro join_sp_concat) blast
  moreover have "py_split (join_sp (concat groups)) = concat groups"
    using words by (intro py_split_join) auto
  ultimately have c1: "py_split (join_sp (wrap_text_to_width bbox t mw)) = py_split t"
    using lines cat by simp
  have "map py_split (map join_sp groups) = groups"
    using sj by (simp add: map_idI)
  then have c2: "concat (map py_split (wrap_text_to_width bbox t mw)) = py_split t"
    using lines cat by simp
  have c3: "line \<noteq> [] \<and>
      (text_width bbox line \<le> mw \<or> (py_split line = [line] \<and> mw < text_width bbox line))"
    if "line \<in> set (wrap_text_to_width bbox t mw)" for line
  proof -
    from that obtain g where g: "g \<in> set groups" "line = join_sp g" unfolding lines by auto
    have gne: "g \<noteq> []" using fit g(1) by blast
    have "\<forall>w \<in> set g. w \<noteq> []" using words [OF g(1)] by blast
    then have ne: "line \<noteq> []" using join_sp_eq_Nil [of g] gne g(2) by simp
    show ?thesis
    proof (cases "text_width bbox line \<le> mw")
      case True
      then show ?thesis using ne by simp
    next
      case False
      then have "length g = 1" using fit g by blast
      then obtain w where "g = [w]" by (cases g) auto
      then have "py_split line = [line]" using sj [OF g(1)] g(2) by simp
      then show ?thesis using False ne by simp
    qed
  qed
  show ?thesis using c1 c2 c3 by blast
qed

theorem greedy_wrap_correct_witness:
  "wrap_text_to_width (\<lambda>t. (0, 0, 10 * int (length t), 12))
      ''  hello  brave new supercalifragilistic world '' 100 =
     [''hello'', ''brave new'', ''supercalifragilistic'', ''world''] \<and>
   py_split (join_sp (wrap_text_to_width (\<lambda>t. (0, 0, 10 * int (length t), 12))
      ''  hello  brave new supercalifragilistic world '' 100)) =
     py_split ''  hello  brave new supercalifragilistic world '' \<and>
   (text_width (\<lambda>t. (0, 0, 10 * int (length t), 12)) ''supercalifragilistic'' \<le> 100 \<or>
    py_split ''supercalifragilistic'' = [''supercalifragilistic''] \<and>
    100 < text_width (\<lambda>t. (0, 0, 10 * int (length t), 12)) ''supercalifragilistic'')"
proof -
  let ?B = "\<lambda>t :: string. (0 :: int, 0 :: int, 10 * int (length t), 12 :: int)"
  let ?T = "''  hello  brave new supercalifragilistic world ''"
  have lines: "wrap_text_to_width ?B ?T 100 =
      [''hello'', ''brave new'', ''supercalifragilistic'', ''world'']"
    by code_simp
  have mem: "''supercalifragilistic'' \<in> set (wrap_text_to_width ?B ?T 100)"
    unfolding lines by simp
  note a = greedy_wrap_correct [of ?B ?T 100]
  have c2: "py_split (join_sp (wrap_text_to_width ?B ?T 100)) = py_split ?T"
    using a by (rule conjunct1)
  have c3: "''supercalifragilistic'' \<noteq> [] \<and>
    (text_width ?B ''supercalifragilistic'' \<le> 100 \<or>
     py_split ''supercalifragilistic'' = [''supercalifragilistic''] \<and>
     100 < text_width ?B ''supercalifragilistic'')"
    using a [THEN conjunct2, THEN conjunct2] mem by (rule bspec)
  show ?thesis using lines c2 c3 [THEN conjunct2] by (intro conjI)
qed

end
